theory Spec2Isabelle
  imports Main "HOL-Library.AList"
begin

section \<open>JavaScript values\<close>

text \<open>
  The values that flow through \<^verbatim>\<open>lib/CachedInputFileSystem.js\<close>: paths, option
  arguments, errors, results and continuations.  A function value carries an identity and
  what a call of it does besides being observed: return normally (\<open>None\<close>) or throw a
  value.  Continuations are the callers' own; they are not re-entrant in this model.
\<close>

datatype jsval =
    Undefined
  | Null
  | Bool bool
  | Num int
  | Str string
  | Obj nat
  | Buffer string
  | Error string
  | TypeError string
  | Fun nat "jsval option"

text \<open>JavaScript's \<^verbatim>\<open>ToBoolean\<close>, as used by \<^verbatim>\<open>if (x)\<close> and \<^verbatim>\<open>!x\<close>.\<close>

fun truthy :: "jsval \<Rightarrow> bool" where
  "truthy Undefined = False"
| "truthy Null = False"
| "truthy (Bool b) = b"
| "truthy (Num n) = (n \<noteq> 0)"
| "truthy (Str s) = (s \<noteq> [])"
| "truthy (Obj _) = True"
| "truthy (Buffer _) = True"
| "truthy (Error _) = True"
| "truthy (TypeError _) = True"
| "truthy (Fun _ _) = True"

fun is_string :: "jsval \<Rightarrow> bool" where
  "is_string (Str _) = True"
| "is_string _ = False"

fun is_function :: "jsval \<Rightarrow> bool" where
  "is_function (Fun _ _) = True"
| "is_function _ = False"

text \<open>
  What an observer of a backend can see: the calls that reach the underlying provider
  (with path and options) and the calls of continuations (with the two arguments
  \<^verbatim>\<open>err\<close> and \<^verbatim>\<open>result\<close>; an argument that is not passed is \<open>Undefined\<close>).
\<close>

datatype event =
    ProviderCall jsval jsval
  | SyncProviderCall jsval jsval
  | Invoke nat jsval jsval

text \<open>
  Calling a value \<^verbatim>\<open>f(err, result)\<close>: a function is invoked (and may throw); calling
  anything else throws a \<^verbatim>\<open>TypeError\<close>.  The result is the events of the call and the
  thrown value, if any.
\<close>

fun call :: "jsval \<Rightarrow> jsval \<Rightarrow> jsval \<Rightarrow> event list \<times> jsval option" where
  "call (Fun i thr) err result = ([Invoke i err result], thr)"
| "call _ err result = ([], Some (TypeError ''callback is not a function''))"

section \<open>dirname\<close>

text \<open>
  \<^verbatim>\<open>dirname\<close> scans the path from its last character down to the first slash (47) or
  backslash (92); \<^verbatim>\<open>idx\<close> ends at that position, or at \<open>-1\<close>.
\<close>

function dirname_scan :: "string \<Rightarrow> int \<Rightarrow> int" where
  "dirname_scan path idx =
     (if idx \<ge> 0 then
        (let c = (of_char (path ! nat idx) :: nat) in
         if c = 47 \<or> c = 92 then idx else dirname_scan path (idx - 1))
      else idx)"
  by pat_completeness auto
termination
  by (relation "measure (\<lambda>(path, idx). nat (idx + 1))") auto

definition dirname :: "string \<Rightarrow> string" where
  "dirname path =
     (let idx = dirname_scan path (int (length path) - 1) in
      if idx < 0 then [] else take (nat idx) path)"

section \<open>runCallbacks\<close>

text \<open>
  The loop of \<^verbatim>\<open>runCallbacks\<close>: every callback is called; the first thrown value that
  is truthy-tested as absent so far is kept in \<^verbatim>\<open>error\<close>.
\<close>

fun runCallbacks_loop :: "jsval list \<Rightarrow> jsval \<Rightarrow> jsval \<Rightarrow> jsval \<Rightarrow> event list \<times> jsval" where
  "runCallbacks_loop [] err result error = ([], error)"
| "runCallbacks_loop (callback # rest) err result error =
     (let (evs, thr) = call callback err result;
          error' = (case thr of
                      None \<Rightarrow> error
                    | Some e \<Rightarrow> if \<not> truthy error then e else error);
          (evs', error'') = runCallbacks_loop rest err result error'
      in (evs @ evs', error''))"

text \<open>
  \<^verbatim>\<open>runCallbacks(callbacks, err, result)\<close> returns the events, the contents of the array
  \<^verbatim>\<open>callbacks\<close> afterwards, and the thrown value, if any.  With exactly one callback the
  function returns from its first line, and the array keeps its element; otherwise the
  array is emptied after the loop.
\<close>

definition runCallbacks :: "jsval list \<Rightarrow> jsval \<Rightarrow> jsval \<Rightarrow> event list \<times> jsval list \<times> jsval option" where
  "runCallbacks callbacks err result =
     (if length callbacks = 1 then
        (let (evs, thr) = call (callbacks ! 0) err result in (evs, callbacks, thr))
      else
        (let (evs, error) = runCallbacks_loop callbacks err result Undefined
         in (evs, [], if truthy error then Some error else None)))"

section \<open>LRUCache\<close>

text \<open>
  Nodes are objects with identity: they live in a heap (a list indexed by address, which
  only grows; \<^verbatim>\<open>new Node\<close> appends), and \<^verbatim>\<open>next\<close>, \<^verbatim>\<open>prev\<close>, \<^verbatim>\<open>head\<close> and
  \<^verbatim>\<open>tail\<close> are addresses or \<^verbatim>\<open>null\<close>.  The \<^verbatim>\<open>Map\<close> from keys to nodes is an
  association list in insertion order, as a JavaScript \<^verbatim>\<open>Map\<close> is.
\<close>

record ('k, 'v) node =
  node_key :: 'k
  node_value :: 'v
  node_next :: "nat option"
  node_prev :: "nat option"

record ('k, 'v) LRUCache =
  cap :: int
  cache_map :: "('k \<times> nat) list"
  head :: "nat option"
  tail :: "nat option"
  heap :: "('k, 'v) node list"

definition LRUCache_new :: "int \<Rightarrow> ('k, 'v) LRUCache" where
  "LRUCache_new capacity =
     \<lparr>cap = capacity, cache_map = [], head = None, tail = None, heap = []\<rparr>"

definition set_next :: "nat \<Rightarrow> nat option \<Rightarrow> ('k, 'v) LRUCache \<Rightarrow> ('k, 'v) LRUCache" where
  "set_next a v s = s\<lparr>heap := (heap s)[a := (heap s ! a)\<lparr>node_next := v\<rparr>]\<rparr>"

definition set_prev :: "nat \<Rightarrow> nat option \<Rightarrow> ('k, 'v) LRUCache \<Rightarrow> ('k, 'v) LRUCache" where
  "set_prev a v s = s\<lparr>heap := (heap s)[a := (heap s ! a)\<lparr>node_prev := v\<rparr>]\<rparr>"

definition set_value :: "nat \<Rightarrow> 'v \<Rightarrow> ('k, 'v) LRUCache \<Rightarrow> ('k, 'v) LRUCache" where
  "set_value a v s = s\<lparr>heap := (heap s)[a := (heap s ! a)\<lparr>node_value := v\<rparr>]\<rparr>"

definition removeNode :: "nat \<Rightarrow> ('k, 'v) LRUCache \<Rightarrow> ('k, 'v) LRUCache" where
  "removeNode n s =
     (let s1 = (case node_prev (heap s ! n) of
                  Some p \<Rightarrow> set_next p (node_next (heap s ! n)) s
                | None \<Rightarrow> s\<lparr>head := node_next (heap s ! n)\<rparr>)
      in case node_next (heap s1 ! n) of
           Some q \<Rightarrow> set_prev q (node_prev (heap s1 ! n)) s1
         | None \<Rightarrow> s1\<lparr>tail := node_prev (heap s1 ! n)\<rparr>)"

definition offerNode :: "nat \<Rightarrow> ('k, 'v) LRUCache \<Rightarrow> ('k, 'v) LRUCache" where
  "offerNode n s =
     (let s1 = (case tail s of Some t \<Rightarrow> set_next t (Some n) s | None \<Rightarrow> s);
          s2 = set_prev n (tail s1) s1;
          s3 = set_next n None s2;
          s4 = s3\<lparr>tail := Some n\<rparr>
      in if head s4 = None then s4\<lparr>head := tail s4\<rparr> else s4)"

text \<open>A fresh node at the end of the heap, as the constructor of \<^verbatim>\<open>Node\<close> fills it.\<close>

definition alloc :: "'k \<Rightarrow> 'v \<Rightarrow> ('k, 'v) LRUCache \<Rightarrow> ('k, 'v) LRUCache" where
  "alloc k v s =
     s\<lparr>heap := heap s @ [\<lparr>node_key = k, node_value = v, node_next = None, node_prev = None\<rparr>]\<rparr>"

text \<open>\<^verbatim>\<open>new Node(key, value)\<close>: the address of the fresh node and the heap holding it.\<close>

definition new_Node :: "'k \<Rightarrow> 'v \<Rightarrow> ('k, 'v) LRUCache \<Rightarrow> nat \<times> ('k, 'v) LRUCache" where
  "new_Node k v s = (length (heap s), alloc k v s)"

text \<open>\<^verbatim>\<open>get\<close> returns the value (\<open>None\<close> is \<^verbatim>\<open>undefined\<close>) and the cache afterwards.\<close>

definition lru_get :: "'k \<Rightarrow> ('k, 'v) LRUCache \<Rightarrow> 'v option \<times> ('k, 'v) LRUCache" where
  "lru_get k s =
     (case map_of (cache_map s) k of
        None \<Rightarrow> (None, s)
      | Some cachedNode \<Rightarrow>
          (let s' = offerNode cachedNode (removeNode cachedNode s)
           in (Some (node_value (heap s' ! cachedNode)), s')))"

text \<open>
  \<^verbatim>\<open>put\<close> throws only where it reads \<^verbatim>\<open>this.head.key\<close> with \<^verbatim>\<open>head\<close> being
  \<^verbatim>\<open>null\<close>; nothing has been changed by then.
\<close>

definition lru_put :: "'k \<Rightarrow> 'v \<Rightarrow> ('k, 'v) LRUCache \<Rightarrow> jsval + ('k, 'v) LRUCache" where
  "lru_put k v s =
     (case map_of (cache_map s) k of
        Some cachedNode \<Rightarrow>
          Inr (offerNode cachedNode (removeNode cachedNode (set_value cachedNode v s)))
      | None \<Rightarrow>
          (case (if int (length (cache_map s)) \<ge> cap s then
                   (case head s of
                      None \<Rightarrow> Inl (TypeError ''Cannot read property 'key' of null'')
                    | Some h \<Rightarrow>
                        Inr (removeNode h
                              (s\<lparr>cache_map := AList.delete (node_key (heap s ! h)) (cache_map s)\<rparr>)))
                 else Inr s) of
             Inl e \<Rightarrow> Inl e
           | Inr s1 \<Rightarrow>
               (let (node, s2) = new_Node k v s1;
                    s3 = offerNode node s2
                in Inr (s3\<lparr>cache_map := AList.update k node (cache_map s3)\<rparr>))))"

definition lru_size :: "('k, 'v) LRUCache \<Rightarrow> nat" where
  "lru_size s = length (cache_map s)"

definition lru_purge :: "('k, 'v) LRUCache \<Rightarrow> ('k, 'v) LRUCache" where
  "lru_purge s = s\<lparr>cache_map := [], head := None, tail := None\<rparr>"

datatype ('k, 'v) lru_op = Get 'k | Put 'k 'v | Size | Purge

text \<open>One operation on the cache, and a sequence of them; a \<^verbatim>\<open>put\<close> that throws leaves
  the cache as it was.\<close>

fun lru_exec :: "('k, 'v) LRUCache \<Rightarrow> ('k, 'v) lru_op \<Rightarrow> ('k, 'v) LRUCache" where
  "lru_exec s (Get k) = snd (lru_get k s)"
| "lru_exec s (Put k v) = (case lru_put k v s of Inl e \<Rightarrow> s | Inr s' \<Rightarrow> s')"
| "lru_exec s Size = s"
| "lru_exec s Purge = lru_purge s"

definition lru_run :: "('k, 'v) lru_op list \<Rightarrow> ('k, 'v) LRUCache \<Rightarrow> ('k, 'v) LRUCache" where
  "lru_run ops s = foldl lru_exec s ops"

subsection \<open>What the pointers represent\<close>

text \<open>
  \<open>walk\<close> follows \<^verbatim>\<open>next\<close> from \<^verbatim>\<open>head\<close>; the heap's size bounds the number of
  steps.  \<open>lru_order\<close> is the recency order of the nodes, least recently used first, and
  \<open>lru_entries\<close> the keys and values in that order.
\<close>

fun walk :: "('k, 'v) node list \<Rightarrow> nat \<Rightarrow> nat option \<Rightarrow> nat list" where
  "walk h 0 x = []"
| "walk h (Suc fuel) None = []"
| "walk h (Suc fuel) (Some a) = a # walk h fuel (node_next (h ! a))"

definition lru_order :: "('k, 'v) LRUCache \<Rightarrow> nat list" where
  "lru_order s = walk (heap s) (length (heap s)) (head s)"

definition lru_entries :: "('k, 'v) LRUCache \<Rightarrow> ('k \<times> 'v) list" where
  "lru_entries s = map (\<lambda>a. (node_key (heap s ! a), node_value (heap s ! a))) (lru_order s)"

text \<open>
  \<open>dll h p x as y\<close>: the addresses \<open>as\<close> are a doubly linked segment of the heap \<open>h\<close>
  that starts at pointer \<open>x\<close>, whose first node has \<^verbatim>\<open>prev\<close> \<open>p\<close> and whose last
  node has \<^verbatim>\<open>next\<close> \<open>y\<close>.
\<close>

fun dll :: "('k, 'v) node list \<Rightarrow> nat option \<Rightarrow> nat option \<Rightarrow> nat list \<Rightarrow> nat option \<Rightarrow> bool" where
  "dll h p x [] y = (x = y)"
| "dll h p x (a # as) y =
     (x = Some a \<and> a < length h \<and> node_prev (h ! a) = p \<and> dll h (Some a) (node_next (h ! a)) as y)"

definition last_opt :: "nat option \<Rightarrow> nat list \<Rightarrow> nat option" where
  "last_opt p as = (if as = [] then p else Some (last as))"

definition chain :: "('k, 'v) LRUCache \<Rightarrow> nat list \<Rightarrow> bool" where
  "chain s as = (distinct as \<and> dll (heap s) None (head s) as None \<and> tail s = last_opt None as)"

definition contents :: "('k, 'v) LRUCache \<Rightarrow> ('k \<times> 'v) list" where
  "contents s = map (\<lambda>n. (node_key n, node_value n)) (heap s)"

definition entries_of :: "('k, 'v) LRUCache \<Rightarrow> nat list \<Rightarrow> ('k \<times> 'v) list" where
  "entries_of s as = map (\<lambda>a. contents s ! a) as"

text \<open>
  \<open>lru_rep s as\<close>: the cache \<open>s\<close> holds exactly the nodes \<open>as\<close>, linked in this order
  from \<^verbatim>\<open>head\<close> to \<^verbatim>\<open>tail\<close>, and the \<^verbatim>\<open>Map\<close> sends each node's key to the node.
\<close>

definition lru_rep :: "('k, 'v) LRUCache \<Rightarrow> nat list \<Rightarrow> bool" where
  "lru_rep s as =
     (chain s as \<and> distinct (map fst (cache_map s)) \<and>
      set (cache_map s) = (\<lambda>a. (fst (contents s ! a), a)) ` set as)"

text \<open>The invariant of the cache: well-formed pointers, and no more entries than the capacity.\<close>

definition lru_inv :: "('k, 'v) LRUCache \<Rightarrow> bool" where
  "lru_inv s = (lru_rep s (lru_order s) \<and> int (length (cache_map s)) \<le> cap s)"

section \<open>The backends\<close>

text \<open>
  Both backend classes hold \<^verbatim>\<open>_activeAsyncOperations\<close>, a \<^verbatim>\<open>Map\<close> from path to the
  array of waiting callbacks.  The arrays are objects: the \<^verbatim>\<open>Map\<close> and the closure that
  a backend hands to the provider share one array, so arrays live in a store and are named
  by address.  \<open>pending\<close> are the provider invocations that have not called back yet:
  \<open>Merged path a\<close> was given the backend's closure over the array \<open>a\<close>,
  \<open>Direct path options callback\<close> was given the caller's own callback.  \<open>trace\<close> is
  what has been observed so far.  The providers are supplied by the environment: they are
  present, accept every call, and answer an asynchronous call once, by \<open>complete\<close>.
  Addresses come from allocation only, so every address that the code holds is in its
  store; \<open>registry_ok\<close> below says so for the arrays, \<open>lru_inv\<close> for the nodes.
\<close>

datatype pending_call = Merged string nat | Direct jsval jsval jsval

record backend =
  activeAsyncOperations :: "(string \<times> nat) list"
  arrays :: "jsval list list"
  pending :: "pending_call list"
  trace :: "event list"

record cache_entry =
  entry_err :: jsval
  entry_result :: jsval

record CacheBackend = backend +
  lruCache :: "(string, cache_entry) LRUCache"

text \<open>Calling a callback from backend code: its events are observed, its exception returned.\<close>

definition invoke :: "jsval \<Rightarrow> jsval \<Rightarrow> jsval \<Rightarrow> 'a backend_scheme \<Rightarrow> jsval option \<times> 'a backend_scheme" where
  "invoke f e r st = (let (evs, thr) = call f e r in (thr, st\<lparr>trace := trace st @ evs\<rparr>))"

text \<open>\<^verbatim>\<open>runCallbacks\<close> on the array at address \<open>a\<close>, which it may empty.\<close>

definition run_array :: "nat \<Rightarrow> jsval \<Rightarrow> jsval \<Rightarrow> 'a backend_scheme \<Rightarrow> jsval option \<times> 'a backend_scheme" where
  "run_array a e r st =
     (let (evs, callbacks', thr) = runCallbacks (arrays st ! a) e r
      in (thr, st\<lparr>arrays := (arrays st)[a := callbacks'], trace := trace st @ evs\<rparr>))"

text \<open>The first lines of both \<^verbatim>\<open>provide\<close> functions: a function in the place of the
  options is the callback.\<close>

definition shift_args :: "jsval \<Rightarrow> jsval \<Rightarrow> jsval \<times> jsval" where
  "shift_args options callback =
     (if is_function options then (Undefined, options) else (options, callback))"

text \<open>\<^verbatim>\<open>callbacks.push(callback)\<close>, and the registration of a new array followed by the
  call of the provider with the backend's closure.\<close>

definition push_callback :: "nat \<Rightarrow> jsval \<Rightarrow> 'a backend_scheme \<Rightarrow> 'a backend_scheme" where
  "push_callback a callback st = st\<lparr>arrays := (arrays st)[a := arrays st ! a @ [callback]]\<rparr>"

definition start_operation :: "string \<Rightarrow> jsval \<Rightarrow> 'a backend_scheme \<Rightarrow> 'a backend_scheme" where
  "start_operation p callback st =
     (let a = length (arrays st) in
      st\<lparr>arrays := arrays st @ [[callback]],
         activeAsyncOperations := AList.update p a (activeAsyncOperations st),
         pending := pending st @ [Merged p a],
         trace := trace st @ [ProviderCall (Str p) Undefined]\<rparr>)"

definition call_provider :: "jsval \<Rightarrow> jsval \<Rightarrow> jsval \<Rightarrow> 'a backend_scheme \<Rightarrow> 'a backend_scheme" where
  "call_provider path options callback st =
     st\<lparr>pending := pending st @ [Direct path options callback],
        trace := trace st @ [ProviderCall path options]\<rparr>"

definition drop_pending :: "nat \<Rightarrow> 'a backend_scheme \<Rightarrow> 'a backend_scheme" where
  "drop_pending i st = st\<lparr>pending := take i (pending st) @ drop (Suc i) (pending st)\<rparr>"

subsection \<open>OperationMergerBackend\<close>

definition OperationMergerBackend_new :: backend where
  "OperationMergerBackend_new =
     \<lparr>activeAsyncOperations = [], arrays = [], pending = [], trace = []\<rparr>"

definition merger_provide :: "jsval \<Rightarrow> jsval \<Rightarrow> jsval \<Rightarrow> backend \<Rightarrow> jsval option \<times> backend" where
  "merger_provide path options0 callback0 st =
     (let (options, callback) = shift_args options0 callback0 in
      if truthy options then (None, call_provider path options callback st)
      else case path of
        Str p \<Rightarrow>
          (case map_of (activeAsyncOperations st) p of
             Some a \<Rightarrow> (None, push_callback a callback st)
           | None \<Rightarrow> (None, start_operation p callback st))
      | _ \<Rightarrow> invoke callback (TypeError ''path must be a string'') Undefined st)"



subsection \<open>CacheBackend\<close>

definition CacheBackend_new :: "int \<Rightarrow> CacheBackend" where
  "CacheBackend_new duration =
     \<lparr>activeAsyncOperations = [], arrays = [], pending = [], trace = [],
      lruCache = LRUCache_new duration\<rparr>"

definition storeResult :: "string \<Rightarrow> jsval \<Rightarrow> jsval \<Rightarrow> CacheBackend \<Rightarrow> jsval + CacheBackend" where
  "storeResult p e r st =
     (case lru_put p \<lparr>entry_err = e, entry_result = r\<rparr> (lruCache st) of
        Inl x \<Rightarrow> Inl x
      | Inr c \<Rightarrow> Inr (st\<lparr>lruCache := c\<rparr>))"

definition provide :: "jsval \<Rightarrow> jsval \<Rightarrow> jsval \<Rightarrow> CacheBackend \<Rightarrow> jsval option \<times> CacheBackend" where
  "provide path options0 callback0 st =
     (let (options, callback) = shift_args options0 callback0 in
      case path of
        Str p \<Rightarrow>
          if truthy options then (None, call_provider path options callback st)
          else
            (let (cacheEntry, c) = lru_get p (lruCache st);
                 st1 = st\<lparr>lruCache := c\<rparr>
             in case cacheEntry of
                  Some entry \<Rightarrow>
                    if truthy (entry_err entry) then invoke callback (entry_err entry) Undefined st1
                    else invoke callback Null (entry_result entry) st1
                | None \<Rightarrow>
                    (case map_of (activeAsyncOperations st1) p of
                       Some a \<Rightarrow> (None, push_callback a callback st1)
                     | None \<Rightarrow> (None, start_operation p callback st1)))
      | _ \<Rightarrow> invoke callback (TypeError ''path must be a string'') Undefined st)"

definition complete :: "nat \<Rightarrow> jsval \<Rightarrow> jsval \<Rightarrow> CacheBackend \<Rightarrow> jsval option \<times> CacheBackend" where
  "complete i e r st =
     (if i < length (pending st) then
        (case pending st ! i of
           Direct path options callback \<Rightarrow> invoke callback e r (drop_pending i st)
         | Merged p a \<Rightarrow>
             (let st1 = drop_pending i st;
                  st2 = st1\<lparr>activeAsyncOperations := AList.delete p (activeAsyncOperations st1)\<rparr>
              in case storeResult p e r st2 of
                   Inl x \<Rightarrow> (Some x, st2)
                 | Inr st3 \<Rightarrow> run_array a e r st3))
      else (None, st))"

text \<open>
  The part of \<^verbatim>\<open>provideSync\<close> after the provider has thrown or returned: the outcome
  is stored, the callbacks taken from the registry are run, and the caller gets the
  outcome, or what \<^verbatim>\<open>_storeResult\<close> or \<^verbatim>\<open>runCallbacks\<close> threw.
\<close>

definition finish_sync :: "string \<Rightarrow> nat option \<Rightarrow> jsval \<Rightarrow> jsval \<Rightarrow> jsval + jsval \<Rightarrow> CacheBackend
    \<Rightarrow> (jsval + jsval) \<times> CacheBackend" where
  "finish_sync p callbacks e r answer st =
     (case storeResult p e r st of
        Inl x \<Rightarrow> (Inl x, st)
      | Inr st1 \<Rightarrow>
          (case callbacks of
             None \<Rightarrow> (answer, st1)
           | Some a \<Rightarrow>
               (let (thr, st2) = run_array a e r st1
                in case thr of Some x \<Rightarrow> (Inl x, st2) | None \<Rightarrow> (answer, st2))))"

definition provideSync :: "jsval \<Rightarrow> jsval \<Rightarrow> jsval + jsval \<Rightarrow> CacheBackend \<Rightarrow> (jsval + jsval) \<times> CacheBackend" where
  "provideSync path options outcome st =
     (case path of
        Str p \<Rightarrow>
          if truthy options
          then (outcome, st\<lparr>trace := trace st @ [SyncProviderCall path options]\<rparr>)
          else
            (let (cacheEntry, c) = lru_get p (lruCache st);
                 st1 = st\<lparr>lruCache := c\<rparr>
             in case cacheEntry of
                  Some entry \<Rightarrow>
                    if truthy (entry_err entry) then (Inl (entry_err entry), st1)
                    else (Inr (entry_result entry), st1)
                | None \<Rightarrow>
                    (let callbacks = map_of (activeAsyncOperations st1) p;
                         st2 = st1\<lparr>activeAsyncOperations := AList.delete p (activeAsyncOperations st1)\<rparr>;
                         st3 = st2\<lparr>trace := trace st2 @ [SyncProviderCall path Undefined]\<rparr>
                     in case outcome of
                          Inl e \<Rightarrow> finish_sync p callbacks e Undefined (Inl e) st3
                        | Inr r \<Rightarrow> finish_sync p callbacks Undefined r (Inr r) st3))
      | _ \<Rightarrow> (Inl (TypeError ''path must be a string''), st))"

text \<open>
  The argument \<^verbatim>\<open>what\<close> of \<^verbatim>\<open>purge\<close> and \<^verbatim>\<open>purgeParent\<close>: a single value
  (\<^verbatim>\<open>undefined\<close> when absent), or a collection of paths.
\<close>

datatype what = Single jsval | Collection "string list"

fun what_truthy :: "what \<Rightarrow> bool" where
  "what_truthy (Single v) = truthy v"
| "what_truthy (Collection _) = True"

fun what_is_string :: "what \<Rightarrow> bool" where
  "what_is_string (Single v) = is_string v"
| "what_is_string (Collection _) = False"

definition purge :: "what \<Rightarrow> CacheBackend \<Rightarrow> CacheBackend" where
  "purge w st =
     (if \<not> what_truthy w then st\<lparr>lruCache := lru_purge (lruCache st)\<rparr>
      else if what_is_string w then st\<lparr>lruCache := lru_purge (lruCache st)\<rparr>
      else st\<lparr>lruCache := lru_purge (lruCache st)\<rparr>)"

text \<open>\<^verbatim>\<open>set.add\<close> on a \<^verbatim>\<open>Set\<close> kept in insertion order, and the loop of
  \<^verbatim>\<open>purgeParent\<close> that fills it.\<close>

definition set_add :: "string \<Rightarrow> string list \<Rightarrow> string list" where
  "set_add x xs = (if x \<in> set xs then xs else xs @ [x])"

fun parent_set :: "string list \<Rightarrow> string list \<Rightarrow> string list" where
  "parent_set acc [] = acc"
| "parent_set acc (item # items) = parent_set (set_add (dirname item) acc) items"

text \<open>
  \<^verbatim>\<open>purgeParent\<close> throws where \<^verbatim>\<open>what\<close> is neither falsy, nor a string, nor
  iterable, and where \<^verbatim>\<open>dirname\<close> is given an item that is not a string: a buffer is
  iterable, its items are numbers, and \<^verbatim>\<open>path.slice\<close> is not a function of a number.
\<close>

fun purgeParent :: "what \<Rightarrow> CacheBackend \<Rightarrow> jsval option \<times> CacheBackend" where
  "purgeParent (Single v) st =
     (if \<not> truthy v then (None, purge (Single Undefined) st)
      else case v of
        Str p \<Rightarrow> (None, purge (Single (Str (dirname p))) st)
      | Buffer b \<Rightarrow>
          (if b = [] then (None, purge (Collection []) st)
           else (Some (TypeError ''path.slice is not a function''), st))
      | _ \<Rightarrow> (Some (TypeError ''what is not iterable''), st))"
| "purgeParent (Collection items) st = (None, purge (Collection (parent_set [] items)) st)"

text \<open>\<^verbatim>\<open>createBackend\<close> chooses the class by the sign of \<^verbatim>\<open>duration\<close>.\<close>

definition createBackend :: "int \<Rightarrow> backend + CacheBackend" where
  "createBackend duration =
     (if duration > 0 then Inr (CacheBackend_new duration) else Inl OperationMergerBackend_new)"

text \<open>Calls on a \<^verbatim>\<open>CacheBackend\<close> in sequence, as one thread of control issues them and
  the provider answers them.\<close>

datatype request =
    Provide jsval jsval jsval
  | ProvideSync jsval jsval "jsval + jsval"
  | Complete nat jsval jsval
  | PurgeCall what
  | PurgeParentCall what

fun exec :: "CacheBackend \<Rightarrow> request \<Rightarrow> CacheBackend" where
  "exec st (Provide path options callback) = snd (provide path options callback st)"
| "exec st (ProvideSync path options outcome) = snd (provideSync path options outcome st)"
| "exec st (Complete i e r) = snd (complete i e r st)"
| "exec st (PurgeCall w) = purge w st"
| "exec st (PurgeParentCall w) = snd (purgeParent w st)"

definition run :: "request list \<Rightarrow> CacheBackend \<Rightarrow> CacheBackend" where
  "run calls st = foldl exec st calls"

section \<open>The synthesized readJson\<close>

text \<open>
  The facade's functions are written in continuation-passing style: an asynchronous
  function takes the path and the continuation, and \<open>'r\<close> is whatever the continuation
  answers.  \<open>parse buffer\<close> stands for the expression
  \<^verbatim>\<open>JSON.parse(buffer.toString("utf-8"))\<close> inside the \<^verbatim>\<open>try\<close>: it throws (\<open>Inl\<close>)
  or gives the data (\<open>Inr\<close>).  \<open>js_length\<close> is the property \<^verbatim>\<open>length\<close> of buffers
  and strings; it is \<^verbatim>\<open>undefined\<close> (\<open>None\<close>) for the other values of the model.
\<close>

fun js_length :: "jsval \<Rightarrow> nat option" where
  "js_length (Buffer b) = Some (length b)"
| "js_length (Str s) = Some (length s)"
| "js_length _ = None"

definition readJson_callback :: "(jsval \<Rightarrow> jsval + jsval) \<Rightarrow> (jsval \<Rightarrow> jsval \<Rightarrow> 'r) \<Rightarrow> jsval \<Rightarrow> jsval \<Rightarrow> 'r" where
  "readJson_callback parse callback e buffer =
     (if truthy e then callback e Undefined
      else if \<not> truthy buffer \<or> js_length buffer = Some 0
      then callback (Error ''No file content'') Undefined
      else case parse buffer of
             Inl x \<Rightarrow> callback x Undefined
           | Inr data \<Rightarrow> callback Null data)"

definition synth_readJson :: "(jsval \<Rightarrow> jsval + jsval) \<Rightarrow> (jsval \<Rightarrow> (jsval \<Rightarrow> jsval \<Rightarrow> 'r) \<Rightarrow> 'r)
    \<Rightarrow> jsval \<Rightarrow> (jsval \<Rightarrow> jsval \<Rightarrow> 'r) \<Rightarrow> 'r" where
  "synth_readJson parse readFile path callback = readFile path (readJson_callback parse callback)"

text \<open>
  The provider of the readJson backend:
  \<^verbatim>\<open>this.fileSystem.readJson || (this.readFile && ((path, callback) => ...))\<close>;
  \<open>None\<close> is a missing function.
\<close>

definition readJson_provider :: "(jsval \<Rightarrow> (jsval \<Rightarrow> jsval \<Rightarrow> 'r) \<Rightarrow> 'r) option
    \<Rightarrow> (jsval \<Rightarrow> (jsval \<Rightarrow> jsval \<Rightarrow> 'r) \<Rightarrow> 'r) option \<Rightarrow> (jsval \<Rightarrow> jsval + jsval)
    \<Rightarrow> (jsval \<Rightarrow> (jsval \<Rightarrow> jsval \<Rightarrow> 'r) \<Rightarrow> 'r) option" where
  "readJson_provider fs_readJson readFile parse =
     (case fs_readJson of
        Some f \<Rightarrow> Some f
      | None \<Rightarrow> (case readFile of None \<Rightarrow> None | Some rf \<Rightarrow> Some (synth_readJson parse rf)))"

section \<open>Notions used by the claims\<close>

fun fun_id :: "jsval \<Rightarrow> nat" where
  "fun_id (Fun i _) = i"
| "fun_id _ = 0"

fun fun_throws :: "jsval \<Rightarrow> jsval option" where
  "fun_throws (Fun _ thr) = thr"
| "fun_throws _ = None"



text \<open>A \<^verbatim>\<open>CacheBackend\<close> as \<^verbatim>\<open>createBackend\<close> makes it and its methods keep it: the
  cache is well formed and its capacity positive.\<close>

definition cache_ok :: "CacheBackend \<Rightarrow> bool" where
  "cache_ok st = (lru_inv (lruCache st) \<and> 1 \<le> cap (lruCache st))"

text \<open>The cached outcome for a path, if any.\<close>

definition cached :: "CacheBackend \<Rightarrow> string \<Rightarrow> cache_entry option" where
  "cached st p = map_of (lru_entries (lruCache st)) p"


text \<open>A lookup of the path \<open>k\<close> without options, \<^verbatim>\<open>provide(k, cb)\<close> or
  \<^verbatim>\<open>provideSync(k)\<close>, and what a cached error \<open>e\<close> makes it show.\<close>

fun lookup_of :: "string \<Rightarrow> request \<Rightarrow> bool" where
  "lookup_of k (Provide path opts cb) = (path = Str k \<and> is_function opts \<and> cb = Undefined)"
| "lookup_of k (ProvideSync path opts outcome) = (path = Str k \<and> opts = Undefined)"
| "lookup_of k _ = False"

fun replay_of :: "jsval \<Rightarrow> request \<Rightarrow> event list" where
  "replay_of e (Provide path opts cb) = [Invoke (fun_id opts) e Undefined]"
| "replay_of e _ = []"

text \<open>
  The in-flight registry and the outstanding provider invocations: the registry has one
  entry per path, every entry has exactly one outstanding invocation of the provider that
  was given its array, and every outstanding merged invocation holds an array of the store.
\<close>

fun array_in_store :: "nat \<Rightarrow> pending_call \<Rightarrow> bool" where
  "array_in_store n (Merged p a) = (a < n)"
| "array_in_store n (Direct path options callback) = True"

definition registry_ok :: "'a backend_scheme \<Rightarrow> bool" where
  "registry_ok st =
     (distinct (map fst (activeAsyncOperations st)) \<and>
      list_all (\<lambda>(k, a). count_list (pending st) (Merged k a) = 1) (activeAsyncOperations st) \<and>
      list_all (array_in_store (length (arrays st))) (pending st))"

text \<open>
  What can take a cached outcome of the path \<open>k\<close> away.  \<open>stores st c\<close> is the path
  for which the call \<open>c\<close>, made in the state \<open>st\<close>, reaches \<^verbatim>\<open>_storeResult\<close>: the
  completion of a merged invocation, and \<^verbatim>\<open>provideSync\<close> without options on a miss.
  \<open>purges st c\<close>: the call reaches \<^verbatim>\<open>lruCache.purge()\<close>.  \<open>evicted_by st p\<close> is
  the key that storing an outcome for \<open>p\<close> evicts: the least recently used one, when
  \<open>p\<close> is not cached and the cache is full.  A call disturbs \<open>k\<close> when it purges,
  stores a new outcome for \<open>k\<close>, or stores one for another path and so evicts \<open>k\<close>;
  a sequence of calls leaves \<open>k\<close> undisturbed when none of them, made in its turn,
  disturbs \<open>k\<close>.
\<close>

fun stores :: "CacheBackend \<Rightarrow> request \<Rightarrow> string option" where
  "stores st (Complete i e r) =
     (if i < length (pending st)
      then (case pending st ! i of Merged p a \<Rightarrow> Some p | Direct path options callback \<Rightarrow> None)
      else None)"
| "stores st (ProvideSync path opts outcome) =
     (case path of
        Str p \<Rightarrow> if \<not> truthy opts \<and> cached st p = None then Some p else None
      | _ \<Rightarrow> None)"
| "stores st (Provide path opts cb) = None"
| "stores st (PurgeCall w) = None"
| "stores st (PurgeParentCall w) = None"

fun purges :: "CacheBackend \<Rightarrow> request \<Rightarrow> bool" where
  "purges st (PurgeCall w) = True"
| "purges st (PurgeParentCall w) = (fst (purgeParent w st) = None)"
| "purges st (Provide path opts cb) = False"
| "purges st (ProvideSync path opts outcome) = False"
| "purges st (Complete i e r) = False"

definition evicted_by :: "CacheBackend \<Rightarrow> string \<Rightarrow> string option" where
  "evicted_by st p =
     (if cached st p = None \<and> cap (lruCache st) \<le> int (lru_size (lruCache st))
      then (case lru_entries (lruCache st) of [] \<Rightarrow> None | x # xs \<Rightarrow> Some (fst x))
      else None)"

definition disturbs :: "string \<Rightarrow> CacheBackend \<Rightarrow> request \<Rightarrow> bool" where
  "disturbs k st c =
     (purges st c \<or>
      (case stores st c of
         None \<Rightarrow> False
       | Some p \<Rightarrow> p = k \<or> evicted_by st p = Some k))"

fun undisturbed :: "string \<Rightarrow> CacheBackend \<Rightarrow> request list \<Rightarrow> bool" where
  "undisturbed k st [] = True"
| "undisturbed k st (c # cs) = (\<not> disturbs k st c \<and> undisturbed k (exec st c) cs)"

section \<open>Properties of the cache\<close>

lemma dll_append:
  "dll h p x (as @ bs) y = (\<exists>m. dll h p x as m \<and> dll h (last_opt p as) m bs y)"
  by (induction as arbitrary: p x) (auto simp: last_opt_def)

lemma dll_frame:
  "a \<notin> set as \<Longrightarrow> dll (h[a := n]) p x as y = dll h p x as y"
  by (induction as arbitrary: p x) auto

lemma dll_None [simp]: "dll h p None as y = (as = [] \<and> y = None)"
  by (cases as) auto

lemma dll_bound: "dll h p x as y \<Longrightarrow> a \<in> set as \<Longrightarrow> a < length h"
  by (induction as arbitrary: p x) auto

lemma dll_extend: "dll h p x as y \<Longrightarrow> dll (h @ [n]) p x as y"
  by (induction as arbitrary: p x) (auto simp: nth_append)

lemma chain_removeNode:
  assumes "chain s (xs @ n # ys)"
  shows "chain (removeNode n s) (xs @ ys)"
proof (cases xs rule: rev_cases)
  case Nil
  with assms show ?thesis
    apply (cases ys)
    apply (auto simp: chain_def removeNode_def last_opt_def set_prev_def set_next_def dll_frame split: option.splits)
    done
next
  case (snoc xs' p)
  with assms show ?thesis
    apply (cases ys)
    apply (auto simp: chain_def removeNode_def last_opt_def set_prev_def set_next_def dll_frame dll_append split: option.splits)
    done
qed

lemma chain_offerNode:
  assumes "chain s as" "n \<notin> set as" "n < length (heap s)"
  shows "chain (offerNode n s) (as @ [n])"
proof (cases as rule: rev_cases)
  case Nil
  with assms show ?thesis
    by (auto simp: chain_def offerNode_def last_opt_def set_prev_def set_next_def Let_def split: option.splits)
next
  case (snoc as' t)
  with assms show ?thesis
    by (auto simp: chain_def offerNode_def last_opt_def set_prev_def set_next_def Let_def dll_frame dll_append
        nth_list_update split: option.splits)
qed

lemma map_update_same: "f x = f (xs ! a) \<Longrightarrow> map f (xs[a := x]) = map f xs"
  by (cases "a < length xs") (simp_all add: map_update list_update_same_conv list_update_beyond not_less)

lemma contents_set_next [simp]: "contents (set_next a v s) = contents s"
  by (simp add: contents_def set_next_def map_update_same)

lemma contents_set_prev [simp]: "contents (set_prev a v s) = contents s"
  by (simp add: contents_def set_prev_def map_update_same)

lemma contents_head_update [simp]: "contents (s\<lparr>head := x\<rparr>) = contents s"
  by (simp add: contents_def)

lemma contents_tail_update [simp]: "contents (s\<lparr>tail := x\<rparr>) = contents s"
  by (simp add: contents_def)

lemma contents_removeNode [simp]: "contents (removeNode n s) = contents s"
  by (simp add: removeNode_def Let_def split: option.splits)

lemma contents_offerNode [simp]: "contents (offerNode n s) = contents s"
  by (simp add: offerNode_def Let_def split: option.splits)

lemma cache_map_removeNode [simp]: "cache_map (removeNode n s) = cache_map s"
  by (auto simp: removeNode_def Let_def set_next_def set_prev_def split: option.splits)

lemma cache_map_offerNode [simp]: "cache_map (offerNode n s) = cache_map s"
  by (auto simp: offerNode_def Let_def set_next_def set_prev_def split: option.splits)

lemma cap_removeNode [simp]: "cap (removeNode n s) = cap s"
  by (auto simp: removeNode_def Let_def set_next_def set_prev_def split: option.splits)

lemma cap_offerNode [simp]: "cap (offerNode n s) = cap s"
  by (auto simp: offerNode_def Let_def set_next_def set_prev_def split: option.splits)

lemma heap_length_set_next [simp]: "length (heap (set_next a v s)) = length (heap s)"
  by (simp add: set_next_def)

lemma heap_length_set_prev [simp]: "length (heap (set_prev a v s)) = length (heap s)"
  by (simp add: set_prev_def)

lemma heap_length_removeNode [simp]: "length (heap (removeNode n s)) = length (heap s)"
  by (simp add: removeNode_def Let_def split: option.splits)

lemma heap_length_offerNode [simp]: "length (heap (offerNode n s)) = length (heap s)"
  by (simp add: offerNode_def Let_def split: option.splits)

lemma contents_nth:
  "a < length (heap s) \<Longrightarrow> contents s ! a = (node_key (heap s ! a), node_value (heap s ! a))"
  by (simp add: contents_def)

lemma contents_length [simp]: "length (contents s) = length (heap s)"
  by (simp add: contents_def)

lemma contents_eq_key:
  "contents s' = contents s \<Longrightarrow> a < length (heap s) \<Longrightarrow> node_key (heap s' ! a) = node_key (heap s ! a)"
  by (metis contents_length contents_nth fst_conv)

lemma contents_eq_value:
  "contents s' = contents s \<Longrightarrow> a < length (heap s) \<Longrightarrow> node_value (heap s' ! a) = node_value (heap s ! a)"
  by (metis contents_length contents_nth snd_conv)

lemma chain_bound: "chain s as \<Longrightarrow> a \<in> set as \<Longrightarrow> a < length (heap s)"
  by (auto simp: chain_def dest: dll_bound)

lemma lru_rep_lookup:
  assumes "lru_rep s as"
  shows "map_of (cache_map s) k = Some n \<longleftrightarrow> n \<in> set as \<and> fst (contents s ! n) = k"
  using assms by (auto simp: lru_rep_def)

lemma lru_rep_key_inj:
  assumes "lru_rep s as" "a \<in> set as" "b \<in> set as" "fst (contents s ! a) = fst (contents s ! b)"
  shows "a = b"
proof -
  from assms(1) have eq: "set (cache_map s) = (\<lambda>a. (fst (contents s ! a), a)) ` set as"
    and d: "distinct (map fst (cache_map s))"
    by (simp_all add: lru_rep_def)
  from assms(2) have "(fst (contents s ! a), a) \<in> set (cache_map s)"
    unfolding eq by (rule imageI)
  moreover from assms(3) have "(fst (contents s ! b), b) \<in> set (cache_map s)"
    unfolding eq by (rule imageI)
  ultimately show ?thesis
    using d assms(4) by (simp add: eq_key_imp_eq_value)
qed

lemma lru_rep_length:
  assumes "lru_rep s as"
  shows "length (cache_map s) = length as"
proof -
  have inj: "inj_on (\<lambda>a. (fst (contents s ! a), a)) (set as)"
    by (auto simp: inj_on_def)
  from assms have "distinct (cache_map s)" "distinct as"
    by (auto simp: lru_rep_def chain_def distinct_map)
  then have "length (cache_map s) = card (set (cache_map s))" "length as = card (set as)"
    by (simp_all add: distinct_card)
  with assms inj show ?thesis
    by (simp add: lru_rep_def card_image)
qed

lemma lru_rep_move:
  assumes "lru_rep s (xs @ n # ys)"
  shows "lru_rep (offerNode n (removeNode n s)) (xs @ ys @ [n])"
proof -
  let ?s' = "offerNode n (removeNode n s)"
  from assms have ch: "chain s (xs @ n # ys)" by (simp add: lru_rep_def)
  then have "chain (removeNode n s) (xs @ ys)" by (rule chain_removeNode)
  moreover from ch have "n \<notin> set (xs @ ys)" by (auto simp: chain_def)
  moreover from ch have "n < length (heap (removeNode n s))" by (auto dest: chain_bound)
  ultimately have "chain ?s' ((xs @ ys) @ [n])" by (rule chain_offerNode)
  with assms show ?thesis by (auto simp: lru_rep_def)
qed

lemma update_fresh: "k \<notin> fst ` set al \<Longrightarrow> AList.update k v al = al @ [(k, v)]"
  by (induction al) auto

lemma set_delete: "set (AList.delete k al) = {p \<in> set al. fst p \<noteq> k}"
  by (auto simp: AList.delete_eq)

lemma lru_rep_keys:
  assumes "lru_rep s as"
  shows "fst ` set (cache_map s) = fst ` set (entries_of s as)"
  using assms by (simp add: lru_rep_def entries_of_def image_image)

lemma lru_get_miss:
  assumes "lru_rep s as" "k \<notin> fst ` set (entries_of s as)"
  shows "lru_get k s = (None, s)"
proof -
  from assms have "k \<notin> fst ` set (cache_map s)" by (simp add: lru_rep_keys)
  then have "map_of (cache_map s) k = None" by (simp add: map_of_eq_None_iff)
  then show ?thesis by (simp add: lru_get_def)
qed

lemma value_contents: "a < length (heap s) \<Longrightarrow> node_value (heap s ! a) = snd (contents s ! a)"
  by (simp add: contents_def)

lemma key_contents: "a < length (heap s) \<Longrightarrow> node_key (heap s ! a) = fst (contents s ! a)"
  by (simp add: contents_def)

lemma lru_get_hit:
  assumes "lru_rep s (xs @ n # ys)" "fst (contents s ! n) = k"
  shows "lru_get k s = (Some (snd (contents s ! n)), offerNode n (removeNode n s))"
proof -
  from assms(1) have bound: "n < length (heap s)"
    by (auto simp: lru_rep_def dest: chain_bound)
  from assms(1,2) have "map_of (cache_map s) k = Some n"
    by (simp add: lru_rep_lookup)
  moreover have "node_value (heap (offerNode n (removeNode n s)) ! n) = snd (contents s ! n)"
    using bound by (simp add: value_contents)
  ultimately show ?thesis
    by (simp add: lru_get_def Let_def)
qed

lemma next_set_value:
  "a < length h \<Longrightarrow> node_next (h[n := (h ! n)\<lparr>node_value := v\<rparr>] ! a) = node_next (h ! a)"
  by (cases "a = n") simp_all

lemma prev_set_value:
  "a < length h \<Longrightarrow> node_prev (h[n := (h ! n)\<lparr>node_value := v\<rparr>] ! a) = node_prev (h ! a)"
  by (cases "a = n") simp_all

lemma dll_set_value: "dll (h[n := (h ! n)\<lparr>node_value := v\<rparr>]) p x as y = dll h p x as y"
  by (induction as arbitrary: p x) (auto simp: next_set_value prev_set_value)

lemma chain_set_value: "chain (set_value n v s) as = chain s as"
  by (simp add: chain_def set_value_def dll_set_value)

lemma cache_map_set_value [simp]: "cache_map (set_value n v s) = cache_map s"
  by (simp add: set_value_def)

lemma cap_set_value [simp]: "cap (set_value n v s) = cap s"
  by (simp add: set_value_def)

lemma contents_set_value:
  "contents (set_value n v s) = (contents s)[n := (fst (contents s ! n), v)]"
proof (cases "n < length (heap s)")
  case True
  then show ?thesis by (simp add: contents_def set_value_def map_update)
next
  case False
  then show ?thesis by (simp add: contents_def set_value_def list_update_beyond not_less)
qed

lemma fst_contents_set_value [simp]:
  "fst (contents (set_value n v s) ! a) = fst (contents s ! a)"
  by (cases "n < length (heap s)")
     (auto simp: contents_set_value nth_list_update list_update_beyond not_less)

lemma lru_rep_set_value: "lru_rep s as \<Longrightarrow> lru_rep (set_value n v s) as"
  by (simp add: lru_rep_def chain_set_value)

lemma lru_put_present:
  fixes v :: 'v and s :: "('k, 'v) LRUCache"
  assumes "lru_rep s (xs @ n # ys)" "fst (contents s ! n) = k"
  defines "s' \<equiv> offerNode n (removeNode n (set_value n v s))"
  shows "lru_put k v s = Inr s'"
    and "lru_rep s' (xs @ ys @ [n])"
    and "contents s' = (contents s)[n := (k, v)]"
proof -
  from assms(1,2) have "map_of (cache_map s) k = Some n"
    by (simp add: lru_rep_lookup)
  then show "lru_put k v s = Inr s'"
    by (simp add: lru_put_def s'_def)
  from assms(1) have "lru_rep (set_value n v s) (xs @ n # ys)"
    by (rule lru_rep_set_value)
  then show "lru_rep s' (xs @ ys @ [n])"
    unfolding s'_def by (rule lru_rep_move)
  show "contents s' = (contents s)[n := (k, v)]"
    using assms(2) by (simp add: s'_def contents_set_value)
qed

lemma contents_alloc: "contents (alloc k v s) = contents s @ [(k, v)]"
  by (simp add: alloc_def contents_def)

lemma chain_alloc: "chain s as \<Longrightarrow> chain (alloc k v s) as"
  by (simp add: chain_def alloc_def dll_extend)

lemma lru_rep_append:
  fixes v :: 'v and s :: "('k, 'v) LRUCache"
  assumes "lru_rep s as" "k \<notin> fst ` set (cache_map s)"
  defines "n \<equiv> length (heap s)"
  defines "s3 \<equiv> offerNode n (alloc k v s)"
  defines "s' \<equiv> s3\<lparr>cache_map := AList.update k n (cache_map s3)\<rparr>"
  shows "lru_rep s' (as @ [n])" and "contents s' = contents s @ [(k, v)]"
proof -
  from assms(1) have ch: "chain s as" and d: "distinct (map fst (cache_map s))"
    and m: "set (cache_map s) = (\<lambda>a. (fst (contents s ! a), a)) ` set as"
    by (simp_all add: lru_rep_def)
  have bnd: "\<And>a. a \<in> set as \<Longrightarrow> a < n"
    unfolding n_def using ch by (rule chain_bound)
  then have fresh: "n \<notin> set as" by auto
  have "chain (alloc k v s) as" using ch by (rule chain_alloc)
  moreover have "n < length (heap (alloc k v s))" by (simp add: alloc_def n_def)
  ultimately have ch3: "chain s3 (as @ [n])"
    unfolding s3_def using fresh by (intro chain_offerNode)
  have c3: "contents s3 = contents s @ [(k, v)]"
    by (simp add: s3_def contents_alloc)
  have cm3: "cache_map s3 = cache_map s"
    by (simp add: s3_def alloc_def)
  have c': "contents s' = contents s @ [(k, v)]"
    by (simp add: s'_def contents_def flip: c3[unfolded contents_def])
  show "contents s' = contents s @ [(k, v)]" by (rule c')
  have ch': "chain s' (as @ [n])"
    using ch3 by (simp add: chain_def s'_def)
  have cm': "cache_map s' = cache_map s @ [(k, n)]"
    using assms(2) by (simp add: s'_def cm3 update_fresh)
  have old: "\<And>a. a \<in> set as \<Longrightarrow> contents s' ! a = contents s ! a"
    using bnd by (simp add: c' nth_append n_def)
  have new: "contents s' ! n = (k, v)"
    by (simp add: c' nth_append n_def)
  have "set (cache_map s') = (\<lambda>a. (fst (contents s' ! a), a)) ` set (as @ [n])"
    using old new by (auto simp: cm' m)
  moreover have "distinct (map fst (cache_map s'))"
    using d assms(2) by (simp add: cm')
  ultimately show "lru_rep s' (as @ [n])"
    using ch' by (simp add: lru_rep_def)
qed

lemma lru_rep_evict:
  fixes s :: "('k, 'v) LRUCache"
  assumes "lru_rep s (h # as)"
  defines "s2 \<equiv> removeNode h (s\<lparr>cache_map := AList.delete (node_key (heap s ! h)) (cache_map s)\<rparr>)"
  shows "lru_rep s2 as" and "contents s2 = contents s" and "cap s2 = cap s"
    and "length (heap s2) = length (heap s)"
proof -
  let ?s1 = "s\<lparr>cache_map := AList.delete (node_key (heap s ! h)) (cache_map s)\<rparr>"
  from assms(1) have ch: "chain s (h # as)" and d: "distinct (map fst (cache_map s))"
    and m: "set (cache_map s) = (\<lambda>a. (fst (contents s ! a), a)) ` set (h # as)"
    by (simp_all add: lru_rep_def)
  from ch have hb: "h < length (heap s)" by (auto dest: chain_bound)
  then have kh: "node_key (heap s ! h) = fst (contents s ! h)" by (rule key_contents)
  have c1: "contents ?s1 = contents s" by (simp add: contents_def)
  show c2: "contents s2 = contents s" by (simp add: s2_def c1)
  show "cap s2 = cap s" by (simp add: s2_def)
  show "length (heap s2) = length (heap s)" by (simp add: s2_def)
  from ch have "chain ?s1 ([] @ h # as)" by (simp add: chain_def)
  then have "chain s2 ([] @ as)" unfolding s2_def by (rule chain_removeNode)
  then have ch2: "chain s2 as" by simp
  have cm2: "cache_map s2 = AList.delete (fst (contents s ! h)) (cache_map s)"
    by (simp add: s2_def kh)
  have ne: "\<And>a. a \<in> set as \<Longrightarrow> fst (contents s ! a) \<noteq> fst (contents s ! h)"
  proof
    fix a assume a: "a \<in> set as" and e: "fst (contents s ! a) = fst (contents s ! h)"
    with assms(1) have "a = h" by (intro lru_rep_key_inj[of s "h # as" a h]) simp_all
    with a ch show False by (simp add: chain_def)
  qed
  have "set (cache_map s2) = (\<lambda>a. (fst (contents s2 ! a), a)) ` set as"
    using ne by (auto simp: cm2 set_delete m c2)
  moreover have "distinct (map fst (cache_map s2))"
    using d by (simp add: cm2 distinct_delete)
  ultimately show "lru_rep s2 as" using ch2 by (simp add: lru_rep_def)
qed

lemma lru_put_absent_room:
  fixes s :: "('k, 'v) LRUCache"
  assumes "lru_rep s as" "k \<notin> fst ` set (entries_of s as)" "int (length as) < cap s"
  shows "\<exists>s'. lru_put k v s = Inr s' \<and> lru_rep s' (as @ [length (heap s)]) \<and>
              contents s' = contents s @ [(k, v)] \<and> cap s' = cap s"
proof -
  from assms(1,2) have nk: "k \<notin> fst ` set (cache_map s)" by (simp add: lru_rep_keys)
  then have none: "map_of (cache_map s) k = None" by (simp add: map_of_eq_None_iff)
  from assms(1,3) have room: "\<not> int (length (cache_map s)) \<ge> cap s"
    by (simp add: lru_rep_length)
  let ?n = "length (heap s)"
  let ?s3 = "offerNode ?n (alloc k v s)"
  let ?s' = "?s3\<lparr>cache_map := AList.update k ?n (cache_map ?s3)\<rparr>"
  have "lru_put k v s = Inr ?s'"
    using none room by (simp add: lru_put_def new_Node_def Let_def)
  moreover have "lru_rep ?s' (as @ [?n])" using assms(1) nk by (rule lru_rep_append)
  moreover have "contents ?s' = contents s @ [(k, v)]" using assms(1) nk by (rule lru_rep_append)
  moreover have "cap ?s' = cap s" by (simp add: alloc_def)
  ultimately show ?thesis by blast
qed

lemma lru_put_absent_full:
  fixes s :: "('k, 'v) LRUCache"
  assumes "lru_rep s (h # as)" "k \<notin> fst ` set (entries_of s (h # as))" "int (length (h # as)) \<ge> cap s"
  shows "\<exists>s'. lru_put k v s = Inr s' \<and> lru_rep s' (as @ [length (heap s)]) \<and>
              contents s' = contents s @ [(k, v)] \<and> cap s' = cap s"
proof -
  from assms(1,2) have nk: "k \<notin> fst ` set (cache_map s)" by (simp add: lru_rep_keys)
  then have none: "map_of (cache_map s) k = None" by (simp add: map_of_eq_None_iff)
  from assms(1,3) have full: "int (length (cache_map s)) \<ge> cap s"
    by (simp add: lru_rep_length)
  from assms(1) have hd: "head s = Some h" by (simp add: lru_rep_def chain_def)
  let ?s2 = "removeNode h (s\<lparr>cache_map := AList.delete (node_key (heap s ! h)) (cache_map s)\<rparr>)"
  have r2: "lru_rep ?s2 as" and c2: "contents ?s2 = contents s" and cap2: "cap ?s2 = cap s"
    and l2: "length (heap ?s2) = length (heap s)"
    using assms(1) by (rule lru_rep_evict)+
  have "fst ` set (cache_map ?s2) \<subseteq> fst ` set (cache_map s)"
    by (simp add: dom_delete_subset)
  with nk have nk2: "k \<notin> fst ` set (cache_map ?s2)" by blast
  let ?n = "length (heap ?s2)"
  let ?s3 = "offerNode ?n (alloc k v ?s2)"
  let ?s' = "?s3\<lparr>cache_map := AList.update k ?n (cache_map ?s3)\<rparr>"
  have "lru_put k v s = Inr ?s'"
    using none full hd by (simp add: lru_put_def new_Node_def Let_def)
  moreover have "lru_rep ?s' (as @ [?n])" using r2 nk2 by (rule lru_rep_append)
  moreover have "contents ?s' = contents ?s2 @ [(k, v)]" using r2 nk2 by (rule lru_rep_append)
  moreover have "cap ?s' = cap s" by (simp add: alloc_def)
  ultimately show ?thesis using c2 l2 by auto
qed

lemma lru_put_absent_null:
  fixes s :: "('k, 'v) LRUCache"
  assumes "lru_rep s []" "0 \<ge> cap s"
  shows "lru_put k v s = Inl (TypeError ''Cannot read property 'key' of null'')"
proof -
  from assms(1) have "cache_map s = []" "head s = None"
    by (simp_all add: lru_rep_def chain_def)
  with assms(2) show ?thesis by (simp add: lru_put_def)
qed

lemma walk_dll: "dll h p x as None \<Longrightarrow> length as \<le> fuel \<Longrightarrow> walk h fuel x = as"
proof (induction as arbitrary: p x fuel)
  case Nil
  then show ?case by (cases fuel) simp_all
next
  case (Cons a as)
  then show ?case by (cases fuel) auto
qed

lemma chain_length:
  assumes "chain s as"
  shows "length as \<le> length (heap s)"
proof -
  from assms have "set as \<subseteq> {..<length (heap s)}" by (auto dest: chain_bound)
  then have "card (set as) \<le> card {..<length (heap s)}" by (intro card_mono) simp_all
  moreover from assms have "distinct as" by (simp add: chain_def)
  ultimately show ?thesis by (simp add: distinct_card)
qed

lemma lru_rep_order:
  assumes "lru_rep s as"
  shows "lru_order s = as"
proof -
  from assms have ch: "chain s as" by (simp add: lru_rep_def)
  then have "dll (heap s) None (head s) as None" by (simp add: chain_def)
  moreover from ch have "length as \<le> length (heap s)" by (rule chain_length)
  ultimately show ?thesis unfolding lru_order_def by (rule walk_dll)
qed

lemma lru_rep_entries:
  assumes "lru_rep s as"
  shows "lru_entries s = entries_of s as"
proof -
  from assms have "\<And>a. a \<in> set as \<Longrightarrow> a < length (heap s)"
    by (auto simp: lru_rep_def dest: chain_bound)
  then show ?thesis
    using lru_rep_order[OF assms] by (simp add: lru_entries_def entries_of_def contents_def)
qed

lemma lru_rep_distinct_keys:
  assumes "lru_rep s as"
  shows "distinct (map fst (entries_of s as))"
proof -
  have "inj_on (\<lambda>a. fst (contents s ! a)) (set as)"
    using assms by (auto simp: inj_on_def intro: lru_rep_key_inj)
  moreover from assms have "distinct as" by (simp add: lru_rep_def chain_def)
  ultimately show ?thesis by (simp add: entries_of_def distinct_map comp_def)
qed

lemma filter_distinct_key:
  assumes "distinct (map fst (es1 @ (k, v) # es2))"
  shows "filter (\<lambda>e. fst e \<noteq> k) (es1 @ (k, v) # es2) = es1 @ es2"
proof -
  from assms have "\<And>e. e \<in> set es1 \<union> set es2 \<Longrightarrow> fst e \<noteq> k" by force
  then show ?thesis by (simp add: filter_id_conv)
qed

lemma map_of_distinct_key:
  assumes "distinct (map fst (es1 @ (k, v) # es2))"
  shows "map_of (es1 @ (k, v) # es2) k = Some v"
  using assms by (intro map_of_is_SomeI) simp_all

lemma entries_of_append [simp]: "entries_of s (xs @ ys) = entries_of s xs @ entries_of s ys"
  by (simp add: entries_of_def)

lemma entries_of_mono:
  "contents s' = contents s \<Longrightarrow> entries_of s' as = entries_of s as"
  by (simp add: entries_of_def)

lemma lru_inv_repI: "lru_rep s as \<Longrightarrow> int (length as) \<le> cap s \<Longrightarrow> lru_inv s"
  by (simp add: lru_inv_def lru_rep_order lru_rep_length)

lemma lru_get_abs:
  fixes s :: "('k, 'v) LRUCache"
  assumes "lru_inv s"
  shows "fst (lru_get k s) = map_of (lru_entries s) k"
    and "lru_inv (snd (lru_get k s))"
    and "cap (snd (lru_get k s)) = cap s"
    and "lru_entries (snd (lru_get k s)) =
           (case map_of (lru_entries s) k of
              None \<Rightarrow> lru_entries s
            | Some v \<Rightarrow> filter (\<lambda>e. fst e \<noteq> k) (lru_entries s) @ [(k, v)])"
proof -
  define as where "as = lru_order s"
  from assms have rep: "lru_rep s as" and sz: "int (length (cache_map s)) \<le> cap s"
    by (simp_all add: lru_inv_def as_def)
  have ent: "lru_entries s = entries_of s as" using rep by (rule lru_rep_entries)
  have goal: "fst (lru_get k s) = map_of (lru_entries s) k \<and>
      lru_inv (snd (lru_get k s)) \<and> cap (snd (lru_get k s)) = cap s \<and>
      lru_entries (snd (lru_get k s)) =
           (case map_of (lru_entries s) k of
              None \<Rightarrow> lru_entries s
            | Some v \<Rightarrow> filter (\<lambda>e. fst e \<noteq> k) (lru_entries s) @ [(k, v)])"
  proof (cases "k \<in> fst ` set (entries_of s as)")
    case False
    then have "lru_get k s = (None, s)" using rep by (intro lru_get_miss)
    moreover from False have "map_of (lru_entries s) k = None"
      by (simp add: ent map_of_eq_None_iff)
    ultimately show ?thesis using assms by simp
  next
    case True
    then obtain n where n: "n \<in> set as" "fst (contents s ! n) = k"
      by (auto simp: entries_of_def)
    then obtain xs ys where split: "as = xs @ n # ys" by (auto dest: split_list)
    let ?s' = "offerNode n (removeNode n s)"
    let ?v = "snd (contents s ! n)"
    have cn: "contents s ! n = (k, ?v)" using n(2) by (simp add: prod_eq_iff)
    have g: "lru_get k s = (Some ?v, ?s')"
      using rep n(2) unfolding split by (rule lru_get_hit)
    have rep': "lru_rep ?s' (xs @ ys @ [n])"
      using rep unfolding split by (rule lru_rep_move)
    have c': "contents ?s' = contents s" by simp
    have es: "entries_of s as = entries_of s xs @ (k, ?v) # entries_of s ys"
      using cn by (simp add: split entries_of_def)
    have dk: "distinct (map fst (entries_of s xs @ (k, ?v) # entries_of s ys))"
      using lru_rep_distinct_keys[OF rep] by (simp only: es)
    have m: "map_of (lru_entries s) k = Some ?v"
      unfolding ent es using dk by (rule map_of_distinct_key)
    have f: "filter (\<lambda>e. fst e \<noteq> k) (lru_entries s) = entries_of s xs @ entries_of s ys"
      unfolding ent es using dk by (rule filter_distinct_key)
    have "lru_entries ?s' = entries_of ?s' (xs @ ys @ [n])"
      using rep' by (rule lru_rep_entries)
    also have "\<dots> = entries_of s (xs @ ys @ [n])" using c' by (rule entries_of_mono)
    also have "\<dots> = (entries_of s xs @ entries_of s ys) @ [(k, ?v)]"
      using cn by (simp add: entries_of_def)
    finally have e': "lru_entries ?s' = filter (\<lambda>e. fst e \<noteq> k) (lru_entries s) @ [(k, ?v)]"
      by (simp only: f)
    have "length (xs @ ys @ [n]) = length as" by (simp add: split)
    with sz rep have "int (length (xs @ ys @ [n])) \<le> cap ?s'"
      by (simp add: lru_rep_length)
    with rep' have "lru_inv ?s'" by (rule lru_inv_repI)
    with g m e' show ?thesis by simp
  qed
  from goal show "fst (lru_get k s) = map_of (lru_entries s) k" by blast
  from goal show "lru_inv (snd (lru_get k s))" by blast
  from goal show "cap (snd (lru_get k s)) = cap s" by blast
  from goal show "lru_entries (snd (lru_get k s)) =
           (case map_of (lru_entries s) k of
              None \<Rightarrow> lru_entries s
            | Some v \<Rightarrow> filter (\<lambda>e. fst e \<noteq> k) (lru_entries s) @ [(k, v)])" by blast
qed

lemma length_entries_of [simp]: "length (entries_of s as) = length as"
  by (simp add: entries_of_def)

lemma entries_of_update_other:
  assumes "n \<notin> set as" "contents s' = (contents s)[n := e]"
  shows "entries_of s' as = entries_of s as"
proof -
  have "contents s' ! x = contents s ! x" if "x \<in> set as" for x
  proof -
    from that assms(1) have "n \<noteq> x" by auto
    then show ?thesis by (simp add: assms(2))
  qed
  then show ?thesis by (simp add: entries_of_def)
qed

lemma entries_of_extend:
  assumes "\<And>a. a \<in> set as \<Longrightarrow> a < length (contents s)" "contents s' = contents s @ es"
  shows "entries_of s' as = entries_of s as"
  using assms by (auto simp: entries_of_def nth_append)

lemma lru_inv_length:
  assumes "lru_inv s"
  shows "length (lru_entries s) = length (cache_map s)"
  using assms lru_rep_length[of s "lru_order s"] by (simp add: lru_inv_def lru_entries_def)

lemma lru_put_abs:
  fixes s :: "('k, 'v) LRUCache"
  assumes "lru_inv s" "cap s \<ge> 1"
  shows "\<exists>s'. lru_put k v s = Inr s' \<and> lru_inv s' \<and> cap s' = cap s \<and>
           lru_entries s' =
             (if k \<in> fst ` set (lru_entries s)
              then filter (\<lambda>e. fst e \<noteq> k) (lru_entries s) @ [(k, v)]
              else if int (length (lru_entries s)) \<ge> cap s
              then tl (lru_entries s) @ [(k, v)]
              else lru_entries s @ [(k, v)])"
proof -
  define as where "as = lru_order s"
  from assms have rep: "lru_rep s as" and sz: "int (length (cache_map s)) \<le> cap s"
    by (simp_all add: lru_inv_def as_def)
  have ent: "lru_entries s = entries_of s as" using rep by (rule lru_rep_entries)
  have len: "length (cache_map s) = length as" using rep by (rule lru_rep_length)
  have elen: "length (lru_entries s) = length as" by (simp add: ent entries_of_def)
  have bnd: "\<And>a. a \<in> set as \<Longrightarrow> a < length (contents s)"
    using rep by (auto simp: lru_rep_def dest: chain_bound)
  show ?thesis
  proof (cases "k \<in> fst ` set (entries_of s as)")
    case True
    then obtain n where n: "n \<in> set as" "fst (contents s ! n) = k"
      by (auto simp: entries_of_def)
    then obtain xs ys where split: "as = xs @ n # ys" by (auto dest: split_list)
    let ?s' = "offerNode n (removeNode n (set_value n v s))"
    let ?v = "snd (contents s ! n)"
    have cn: "contents s ! n = (k, ?v)" using n(2) by (simp add: prod_eq_iff)
    have p: "lru_put k v s = Inr ?s'"
      and rep': "lru_rep ?s' (xs @ ys @ [n])"
      and c': "contents ?s' = (contents s)[n := (k, v)]"
      using rep n(2) unfolding split by (rule lru_put_present)+
    from rep have "distinct as" by (simp add: lru_rep_def chain_def)
    then have nn: "n \<notin> set (xs @ ys)" by (simp add: split)
    have es: "entries_of s as = entries_of s xs @ (k, ?v) # entries_of s ys"
      using cn by (simp add: split entries_of_def)
    have dk: "distinct (map fst (entries_of s xs @ (k, ?v) # entries_of s ys))"
      using lru_rep_distinct_keys[OF rep] by (simp only: es)
    have f: "filter (\<lambda>e. fst e \<noteq> k) (lru_entries s) = entries_of s xs @ entries_of s ys"
      unfolding ent es using dk by (rule filter_distinct_key)
    have "contents ?s' ! n = (k, v)" using bnd[OF n(1)] unfolding c' by simp
    then have last: "entries_of ?s' [n] = [(k, v)]" by (simp add: entries_of_def)
    have "lru_entries ?s' = entries_of ?s' ((xs @ ys) @ [n])"
      using rep' by (simp add: lru_rep_entries)
    also have "\<dots> = entries_of ?s' (xs @ ys) @ [(k, v)]"
      using last by (simp only: entries_of_append)
    also have "entries_of ?s' (xs @ ys) = entries_of s (xs @ ys)"
      using nn c' by (rule entries_of_update_other)
    finally have e': "lru_entries ?s' = filter (\<lambda>e. fst e \<noteq> k) (lru_entries s) @ [(k, v)]"
      by (simp add: f)
    have "length (xs @ ys @ [n]) = length as" by (simp add: split)
    with sz len have "int (length (xs @ ys @ [n])) \<le> cap ?s'" by simp
    with rep' have "lru_inv ?s'" by (rule lru_inv_repI)
    moreover have "cap ?s' = cap s" by simp
    ultimately show ?thesis using p e' True by (simp add: ent)
  next
    case False
    show ?thesis
    proof (cases "int (length as) \<ge> cap s")
      case full: True
      with assms(2) obtain h as' where has: "as = h # as'" by (cases as) auto
      from rep False full obtain s' where s':
        "lru_put k v s = Inr s'" "lru_rep s' (as' @ [length (heap s)])"
        "contents s' = contents s @ [(k, v)]" "cap s' = cap s"
        unfolding has using lru_put_absent_full[of s h as' k v] by blast
      have "entries_of s' as' = entries_of s as'"
        using bnd s'(3) by (intro entries_of_extend[where es = "[(k, v)]"]) (simp_all add: has)
      moreover have "entries_of s' [length (heap s)] = [(k, v)]"
        by (simp add: entries_of_def s'(3) nth_append)
      ultimately have "lru_entries s' = tl (lru_entries s) @ [(k, v)]"
        using lru_rep_entries[OF s'(2)] by (simp add: ent has entries_of_def)
      moreover have "int (length (as' @ [length (heap s)])) \<le> cap s'"
        using sz len by (simp add: has s'(4))
      with s'(2) have "lru_inv s'" by (rule lru_inv_repI)
      ultimately show ?thesis using s'(1,4) False full by (simp add: ent elen)
    next
      case room: False
      then have lt: "int (length as) < cap s" by simp
      from rep False lt obtain s' where s':
        "lru_put k v s = Inr s'" "lru_rep s' (as @ [length (heap s)])"
        "contents s' = contents s @ [(k, v)]" "cap s' = cap s"
        using lru_put_absent_room[of s as k v] by blast
      have "entries_of s' as = entries_of s as"
        using bnd s'(3) by (intro entries_of_extend[where es = "[(k, v)]"]) simp_all
      moreover have "entries_of s' [length (heap s)] = [(k, v)]"
        by (simp add: entries_of_def s'(3) nth_append)
      ultimately have "lru_entries s' = lru_entries s @ [(k, v)]"
        using lru_rep_entries[OF s'(2)] by (simp add: ent)
      moreover have "int (length (as @ [length (heap s)])) \<le> cap s'"
        using lt by (simp add: s'(4))
      with s'(2) have "lru_inv s'" by (rule lru_inv_repI)
      ultimately show ?thesis using s'(1,4) False room by (simp add: ent elen)
    qed
  qed
qed

lemma lru_new_abs: "0 \<le> C \<Longrightarrow> lru_inv (LRUCache_new C)" "lru_entries (LRUCache_new C) = []"
  by (simp_all add: lru_inv_def lru_rep_def chain_def last_opt_def lru_order_def lru_entries_def LRUCache_new_def)

lemma lru_purge_abs: "0 \<le> cap s \<Longrightarrow> lru_inv (lru_purge s)" "lru_entries (lru_purge s) = []"
  "cap (lru_purge s) = cap s"
  by (cases "length (heap s)"; simp add: lru_inv_def lru_rep_def chain_def last_opt_def lru_order_def lru_entries_def lru_purge_def)+

lemma lru_exec_inv:
  assumes "lru_inv s" "1 \<le> cap s"
  shows "lru_inv (lru_exec s x) \<and> cap (lru_exec s x) = cap s"
proof (cases x)
  case (Get k)
  with assms show ?thesis by (simp add: lru_get_abs)
next
  case (Put k v)
  from lru_put_abs[OF assms, of k v] obtain s' where
    "lru_put k v s = Inr s'" "lru_inv s'" "cap s' = cap s" by blast
  with Put show ?thesis by simp
next
  case Size
  with assms show ?thesis by simp
next
  case Purge
  with assms show ?thesis by (simp add: lru_purge_abs)
qed

lemma lru_run_inv:
  assumes "lru_inv s" "1 \<le> cap s"
  shows "lru_inv (lru_run xs s) \<and> cap (lru_run xs s) = cap s"
  using assms
proof (induction xs arbitrary: s)
  case Nil
  then show ?case by (simp add: lru_run_def)
next
  case (Cons x xs)
  from lru_exec_inv[OF Cons.prems, of x]
  have "lru_inv (lru_exec s x)" "cap (lru_exec s x) = cap s" by simp_all
  with Cons.IH[of "lru_exec s x"] Cons.prems(2) show ?case by (simp add: lru_run_def)
qed

section \<open>Properties of the backends\<close>




lemma lru_get_absent:
  assumes "lru_inv s" "map_of (lru_entries s) k = None"
  shows "lru_get k s = (None, s)"
proof -
  from assms(1) have rep: "lru_rep s (lru_order s)" by (simp add: lru_inv_def)
  from assms(2) have "k \<notin> fst ` set (entries_of s (lru_order s))"
    by (simp add: lru_rep_entries[OF rep] map_of_eq_None_iff)
  with rep show ?thesis by (rule lru_get_miss)
qed



lemma run_Cons: "run (c # cs) st = run cs (exec st c)"
  by (simp add: run_def)

lemma run_Nil: "run [] st = st"
  by (simp add: run_def)




lemma storeResult_ok:
  assumes "cache_ok st"
  shows "\<exists>c. storeResult k e r st = Inr (st\<lparr>lruCache := c\<rparr>) \<and> lru_inv c \<and>
           cap c = cap (lruCache st) \<and>
           lru_put k \<lparr>entry_err = e, entry_result = r\<rparr> (lruCache st) = Inr c"
proof -
  from assms have "lru_inv (lruCache st)" "1 \<le> cap (lruCache st)" by (simp_all add: cache_ok_def)
  from lru_put_abs[OF this, of k "\<lparr>entry_err = e, entry_result = r\<rparr>"]
  obtain c where "lru_put k \<lparr>entry_err = e, entry_result = r\<rparr> (lruCache st) = Inr c"
    "lru_inv c" "cap c = cap (lruCache st)" by blast
  then show ?thesis by (simp add: storeResult_def)
qed









lemma cache_ok_new: "1 \<le> d \<Longrightarrow> cache_ok (CacheBackend_new d)"
  by (simp add: cache_ok_def CacheBackend_new_def lru_new_abs) (simp add: LRUCache_new_def)

lemma cached_new: "cached (CacheBackend_new d) k = None"
  by (simp add: cached_def CacheBackend_new_def lru_new_abs)

lemma cached_purge: "cached (purge w st) k = None"
  by (cases "length (heap (lruCache st))")
     (simp_all add: cached_def purge_def lru_purge_def lru_entries_def lru_order_def)

lemma invoke_function:
  "is_function cb \<Longrightarrow>
   invoke cb e r st = (fun_throws cb, st\<lparr>trace := trace st @ [Invoke (fun_id cb) e r]\<rparr>)"
  by (cases cb) (simp_all add: invoke_def)

lemma provide_hit:
  assumes "cache_ok st" "cached st k = Some entry" "is_function cb"
  shows "provide (Str k) cb Undefined st =
           (fun_throws cb,
            st\<lparr>lruCache := snd (lru_get k (lruCache st)),
               trace := trace st @
                 [if truthy (entry_err entry)
                  then Invoke (fun_id cb) (entry_err entry) Undefined
                  else Invoke (fun_id cb) Null (entry_result entry)]\<rparr>)"
proof -
  from assms(1,2) have "fst (lru_get k (lruCache st)) = Some entry"
    by (simp add: cache_ok_def cached_def lru_get_abs)
  with assms(3) show ?thesis
    by (simp add: provide_def shift_args_def split_beta invoke_function)
qed

lemma cache_ok_hit_example:
  "cache_ok (run [ProvideSync (Str ''a'') Undefined (Inr (Obj 11))] (CacheBackend_new 1000))"
proof -
  have "cache_ok (CacheBackend_new 1000)" by (simp add: cache_ok_new)
  then obtain c where "storeResult ''a'' Undefined (Obj 11) (CacheBackend_new 1000)
      = Inr ((CacheBackend_new 1000)\<lparr>lruCache := c\<rparr>)" "lru_inv c"
      "cap c = cap (lruCache (CacheBackend_new 1000))"
    using storeResult_ok by blast
  moreover have "run [ProvideSync (Str ''a'') Undefined (Inr (Obj 11))] (CacheBackend_new 1000)
    = (case storeResult ''a'' Undefined (Obj 11) (CacheBackend_new 1000) of
         Inr s \<Rightarrow> s\<lparr>trace := [SyncProviderCall (Str ''a'') Undefined]\<rparr>)"
    by code_simp
  ultimately show ?thesis
    by (simp add: cache_ok_def CacheBackend_new_def LRUCache_new_def)
qed

lemma map_of_snoc_fresh:
  assumes "k \<notin> fst ` set xs"
  shows "map_of (xs @ [(k, v)]) k = Some v"
proof -
  from assms have "map_of xs k = None" by (simp add: map_of_eq_None_iff)
  then show ?thesis by (simp add: map_add_def)
qed

lemma lru_put_lookup:
  assumes "lru_inv s" "1 \<le> cap s"
  shows "\<exists>s'. lru_put k v s = Inr s' \<and> lru_inv s' \<and> cap s' = cap s \<and>
              map_of (lru_entries s') k = Some v"
proof -
  from lru_put_abs[OF assms, of k v] obtain s' where s':
    "lru_put k v s = Inr s'" "lru_inv s'" "cap s' = cap s"
    "lru_entries s' =
       (if k \<in> fst ` set (lru_entries s)
        then filter (\<lambda>e. fst e \<noteq> k) (lru_entries s) @ [(k, v)]
        else if int (length (lru_entries s)) \<ge> cap s
        then tl (lru_entries s) @ [(k, v)]
        else lru_entries s @ [(k, v)])" by blast
  have "\<exists>xs. lru_entries s' = xs @ [(k, v)] \<and> k \<notin> fst ` set xs"
  proof (cases "k \<in> fst ` set (lru_entries s)")
    case True
    with s'(4) show ?thesis by (intro exI[of _ "filter (\<lambda>e. fst e \<noteq> k) (lru_entries s)"]) auto
  next
    case False
    then have "k \<notin> fst ` set (tl (lru_entries s))"
      by (cases "lru_entries s") auto
    with False s'(4) show ?thesis by auto
  qed
  then obtain xs where "lru_entries s' = xs @ [(k, v)]" "k \<notin> fst ` set xs" by blast
  then have "map_of (lru_entries s') k = Some v" using map_of_snoc_fresh[of k xs v] by simp
  with s'(1,2,3) show ?thesis by blast
qed

lemma lru_get_lookup:
  assumes "lru_inv s" "map_of (lru_entries s) k = Some v"
  shows "map_of (lru_entries (snd (lru_get k s))) k = Some v"
proof -
  from lru_get_abs(4)[OF assms(1), of k] assms(2)
  have "lru_entries (snd (lru_get k s)) = filter (\<lambda>e. fst e \<noteq> k) (lru_entries s) @ [(k, v)]"
    by simp
  moreover have "k \<notin> fst ` set (filter (\<lambda>e. fst e \<noteq> k) (lru_entries s))" by auto
  ultimately show ?thesis using map_of_snoc_fresh[of k "filter (\<lambda>e. fst e \<noteq> k) (lru_entries s)" v]
    by simp
qed

lemma cache_ok_get: "cache_ok st \<Longrightarrow> cache_ok (st\<lparr>lruCache := snd (lru_get k (lruCache st))\<rparr>)"
  by (simp add: cache_ok_def lru_get_abs)

lemma storeResult_cached:
  assumes "cache_ok st"
  shows "\<exists>c. storeResult k e r st = Inr (st\<lparr>lruCache := c\<rparr>) \<and> cache_ok (st\<lparr>lruCache := c\<rparr>) \<and>
           cached (st\<lparr>lruCache := c\<rparr>) k = Some \<lparr>entry_err = e, entry_result = r\<rparr>"
proof -
  from assms have "lru_inv (lruCache st)" "1 \<le> cap (lruCache st)" by (simp_all add: cache_ok_def)
  from lru_put_lookup[OF this, of k "\<lparr>entry_err = e, entry_result = r\<rparr>"]
  obtain c where c: "lru_put k \<lparr>entry_err = e, entry_result = r\<rparr> (lruCache st) = Inr c"
    "lru_inv c" "cap c = cap (lruCache st)"
    "map_of (lru_entries c) k = Some \<lparr>entry_err = e, entry_result = r\<rparr>" by blast
  with assms show ?thesis
    by (intro exI[of _ c]) (simp add: storeResult_def cache_ok_def cached_def)
qed

lemma lruCache_run_array [simp]: "lruCache (snd (run_array a e r st)) = lruCache st"
  by (simp add: run_array_def split_beta)

lemma cached_cong: "lruCache st' = lruCache st \<Longrightarrow> cached st' k = cached st k"
  by (simp add: cached_def)

lemma cache_ok_cong: "lruCache st' = lruCache st \<Longrightarrow> cache_ok st' = cache_ok st"
  by (simp add: cache_ok_def)

lemma complete_merged_cached:
  assumes "cache_ok st" "i < length (pending st)" "pending st ! i = Merged k a"
  shows "cached (snd (complete i e r st)) k = Some \<lparr>entry_err = e, entry_result = r\<rparr> \<and>
         cache_ok (snd (complete i e r st))"
proof -
  let ?st2 = "(drop_pending i st)\<lparr>activeAsyncOperations :=
                 AList.delete k (activeAsyncOperations (drop_pending i st))\<rparr>"
  have "cache_ok ?st2" using assms(1) by (simp add: cache_ok_def drop_pending_def)
  from storeResult_cached[OF this, of k e r] obtain c where c:
    "storeResult k e r ?st2 = Inr (?st2\<lparr>lruCache := c\<rparr>)" "cache_ok (?st2\<lparr>lruCache := c\<rparr>)"
    "cached (?st2\<lparr>lruCache := c\<rparr>) k = Some \<lparr>entry_err = e, entry_result = r\<rparr>" by blast
  have "complete i e r st = run_array a e r (?st2\<lparr>lruCache := c\<rparr>)"
    using assms(2,3) c(1) by (simp add: complete_def Let_def)
  then have eq: "lruCache (snd (complete i e r st)) = lruCache (?st2\<lparr>lruCache := c\<rparr>)" by simp
  from c(2,3) show ?thesis by (simp only: cached_cong[OF eq] cache_ok_cong[OF eq])
qed

lemma finish_sync_cached:
  assumes "cache_ok st"
  shows "cached (snd (finish_sync k cbs e r answer st)) k = Some \<lparr>entry_err = e, entry_result = r\<rparr> \<and>
         cache_ok (snd (finish_sync k cbs e r answer st))"
proof -
  from storeResult_cached[OF assms, of k e r] obtain c where c:
    "storeResult k e r st = Inr (st\<lparr>lruCache := c\<rparr>)" "cache_ok (st\<lparr>lruCache := c\<rparr>)"
    "cached (st\<lparr>lruCache := c\<rparr>) k = Some \<lparr>entry_err = e, entry_result = r\<rparr>" by blast
  have eq: "lruCache (snd (finish_sync k cbs e r answer st)) = lruCache (st\<lparr>lruCache := c\<rparr>)"
    by (simp add: finish_sync_def c(1) split_beta split: option.splits)
  from c(2,3) show ?thesis by (simp only: cached_cong[OF eq] cache_ok_cong[OF eq])
qed

lemma provideSync_miss:
  assumes "cache_ok st" "cached st k = None"
  shows "provideSync (Str k) Undefined outcome st =
     (let st3 = st\<lparr>activeAsyncOperations := AList.delete k (activeAsyncOperations st),
                    trace := trace st @ [SyncProviderCall (Str k) Undefined]\<rparr>
      in case outcome of
           Inl e \<Rightarrow> finish_sync k (map_of (activeAsyncOperations st) k) e Undefined (Inl e) st3
         | Inr r \<Rightarrow> finish_sync k (map_of (activeAsyncOperations st) k) Undefined r (Inr r) st3)"
proof -
  from assms have "lru_get k (lruCache st) = (None, lruCache st)"
    by (simp add: cache_ok_def cached_def lru_get_absent)
  then show ?thesis by (cases outcome) (simp_all add: provideSync_def Let_def)
qed

lemma provideSync_hit:
  assumes "cache_ok st" "cached st k = Some entry"
  shows "provideSync (Str k) Undefined outcome st =
     (if truthy (entry_err entry) then Inl (entry_err entry) else Inr (entry_result entry),
      st\<lparr>lruCache := snd (lru_get k (lruCache st))\<rparr>)"
proof -
  from assms have "fst (lru_get k (lruCache st)) = Some entry"
    by (simp add: cache_ok_def cached_def lru_get_abs)
  then show ?thesis by (simp add: provideSync_def split_beta)
qed

lemma cached_get:
  assumes "cache_ok st" "cached st k = Some entry"
  shows "cached (st\<lparr>lruCache := snd (lru_get k (lruCache st))\<rparr>) k = Some entry"
  using assms by (simp add: cache_ok_def cached_def lru_get_lookup)

lemma provide_replays:
  assumes "cache_ok st" "cached st k = Some entry" "truthy (entry_err entry)" "is_function cb"
  shows "trace (snd (provide (Str k) cb Undefined st)) = trace st @ [Invoke (fun_id cb) (entry_err entry) Undefined]"
    and "pending (snd (provide (Str k) cb Undefined st)) = pending st"
    and "cached (snd (provide (Str k) cb Undefined st)) k = Some entry"
    and "cache_ok (snd (provide (Str k) cb Undefined st))"
proof -
  let ?st' = "st\<lparr>lruCache := snd (lru_get k (lruCache st))\<rparr>"
  have p: "snd (provide (Str k) cb Undefined st) =
      ?st'\<lparr>trace := trace st @ [Invoke (fun_id cb) (entry_err entry) Undefined]\<rparr>"
    using assms by (simp add: provide_hit)
  show "trace (snd (provide (Str k) cb Undefined st)) = trace st @ [Invoke (fun_id cb) (entry_err entry) Undefined]"
    by (simp add: p)
  show "pending (snd (provide (Str k) cb Undefined st)) = pending st"
    by (simp add: p)
  have "cached ?st' k = Some entry" using assms(1,2) by (rule cached_get)
  then show "cached (snd (provide (Str k) cb Undefined st)) k = Some entry"
    by (simp add: p cached_def)
  have "cache_ok ?st'" using assms(1) by (rule cache_ok_get)
  then show "cache_ok (snd (provide (Str k) cb Undefined st))"
    by (simp add: p cache_ok_def)
qed

lemma provideSync_replays:
  assumes "cache_ok st" "cached st k = Some entry" "truthy (entry_err entry)"
  shows "fst (provideSync (Str k) Undefined outcome st) = Inl (entry_err entry)"
    and "trace (snd (provideSync (Str k) Undefined outcome st)) = trace st"
    and "pending (snd (provideSync (Str k) Undefined outcome st)) = pending st"
    and "cached (snd (provideSync (Str k) Undefined outcome st)) k = Some entry"
    and "cache_ok (snd (provideSync (Str k) Undefined outcome st))"
proof -
  let ?st' = "st\<lparr>lruCache := snd (lru_get k (lruCache st))\<rparr>"
  have p: "provideSync (Str k) Undefined outcome st = (Inl (entry_err entry), ?st')"
    using assms by (simp add: provideSync_hit)
  show "fst (provideSync (Str k) Undefined outcome st) = Inl (entry_err entry)" by (simp add: p)
  show "trace (snd (provideSync (Str k) Undefined outcome st)) = trace st" by (simp add: p)
  show "pending (snd (provideSync (Str k) Undefined outcome st)) = pending st" by (simp add: p)
  show "cached (snd (provideSync (Str k) Undefined outcome st)) k = Some entry"
    using cached_get[OF assms(1,2)] by (simp add: p)
  show "cache_ok (snd (provideSync (Str k) Undefined outcome st))"
    using cache_ok_get[OF assms(1)] by (simp add: p)
qed

lemma lookups_replay:
  assumes "cache_ok st" "cached st k = Some entry" "truthy (entry_err entry)"
    "\<forall>c\<in>set calls. lookup_of k c"
  shows "trace (run calls st) = trace st @ concat (map (replay_of (entry_err entry)) calls) \<and>
         pending (run calls st) = pending st \<and> cached (run calls st) k = Some entry \<and>
         cache_ok (run calls st)"
  using assms
proof (induction calls arbitrary: st)
  case Nil
  then show ?case by (simp add: run_Nil)
next
  case (Cons c calls)
  from Cons.prems(4) have lk: "lookup_of k c" and rest: "\<forall>c\<in>set calls. lookup_of k c" by simp_all
  have step: "trace (exec st c) = trace st @ replay_of (entry_err entry) c \<and>
      pending (exec st c) = pending st \<and> cached (exec st c) k = Some entry \<and> cache_ok (exec st c)"
  proof (cases c)
    case (Provide path opts cb)
    with lk have "path = Str k" "is_function opts" "cb = Undefined" by simp_all
    with Provide provide_replays[OF Cons.prems(1,2,3), of opts] show ?thesis by simp
  next
    case (ProvideSync path opts outcome)
    with lk have "path = Str k" "opts = Undefined" by simp_all
    with ProvideSync provideSync_replays[OF Cons.prems(1,2,3), of outcome] show ?thesis by simp
  qed (use lk in simp_all)
  then have "trace (run calls (exec st c)) = trace (exec st c) @ concat (map (replay_of (entry_err entry)) calls) \<and>
         pending (run calls (exec st c)) = pending (exec st c) \<and> cached (run calls (exec st c)) k = Some entry \<and>
         cache_ok (run calls (exec st c))"
    using Cons.prems(3) rest by (intro Cons.IH) simp_all
  with step show ?case by (simp add: run_Cons)
qed

lemma registry_ok_cong:
  assumes "activeAsyncOperations st' = activeAsyncOperations st" "pending st' = pending st"
    "length (arrays st') = length (arrays st)"
  shows "registry_ok st' = registry_ok st"
  using assms by (simp add: registry_ok_def)

lemma count_list_remove_nth:
  "i < length xs \<Longrightarrow> xs ! i \<noteq> y \<Longrightarrow> count_list (take i xs @ drop (Suc i) xs) y = count_list xs y"
proof (induction xs arbitrary: i)
  case Nil
  then show ?case by simp
next
  case (Cons x xs)
  then show ?case by (cases i) auto
qed

lemma list_all_take: "list_all P xs \<Longrightarrow> list_all P (take i xs)"
  by (auto simp: list_all_iff dest: in_set_takeD)

lemma list_all_drop: "list_all P xs \<Longrightarrow> list_all P (drop i xs)"
  by (auto simp: list_all_iff dest: in_set_dropD)

lemma registry_ok_call_provider:
  "registry_ok st \<Longrightarrow> registry_ok (call_provider path options callback st)"
  by (auto simp: registry_ok_def call_provider_def list_all_iff)

lemma registry_ok_push_callback:
  "registry_ok st \<Longrightarrow> registry_ok (push_callback a cb st)"
  by (simp add: registry_ok_def push_callback_def)

lemma merged_in_pending_bound:
  assumes "list_all (array_in_store n) ps" "Merged k a \<in> set ps"
  shows "a < n"
  using assms by (force simp: list_all_iff)

lemma registry_ok_start_operation:
  assumes "registry_ok st" "map_of (activeAsyncOperations st) p = None"
  shows "registry_ok (start_operation p cb st)"
proof -
  let ?a = "length (arrays st)"
  from assms(2) have fresh: "p \<notin> fst ` set (activeAsyncOperations st)"
    by (simp add: map_of_eq_None_iff)
  then have upd: "AList.update p ?a (activeAsyncOperations st) = activeAsyncOperations st @ [(p, ?a)]"
    by (rule update_fresh)
  from assms(1) have d: "distinct (map fst (activeAsyncOperations st))"
    and c: "list_all (\<lambda>(k, a). count_list (pending st) (Merged k a) = 1) (activeAsyncOperations st)"
    and b: "list_all (array_in_store ?a) (pending st)"
    by (simp_all add: registry_ok_def)
  have "Merged p ?a \<notin> set (pending st)"
    using merged_in_pending_bound[OF b, of p ?a] by auto
  then have new: "count_list (pending st) (Merged p ?a) = 0"
    by (simp add: count_list_0_iff)
  from fresh have ne: "k \<noteq> p" if "(k, a) \<in> set (activeAsyncOperations st)" for k a
    using that by force
  have old: "list_all (\<lambda>(k, a). count_list (pending st @ [Merged p ?a]) (Merged k a) = 1)
               (activeAsyncOperations st)"
    using c ne by (auto simp: list_all_iff)
  have b': "list_all (array_in_store (Suc ?a)) (pending st)"
  proof -
    have "array_in_store ?a x \<Longrightarrow> array_in_store (Suc ?a) x" for x by (cases x) auto
    with b show ?thesis by (auto simp: list_all_iff)
  qed
  show ?thesis
    using d fresh old new b'
    by (simp add: registry_ok_def start_operation_def Let_def upd)
qed

lemma set_delete_subset: "set (AList.delete k al) \<subseteq> set al"
  by (auto simp: set_delete)

lemma registry_ok_delete:
  assumes "registry_ok st"
  shows "registry_ok (st\<lparr>activeAsyncOperations := AList.delete k (activeAsyncOperations st)\<rparr>)"
  using assms set_delete_subset[of k "activeAsyncOperations st"]
  by (auto simp: registry_ok_def distinct_delete list_all_iff)

lemma registry_ok_drop_direct:
  assumes "registry_ok st" "i < length (pending st)" "pending st ! i = Direct path options callback"
  shows "registry_ok (drop_pending i st)"
proof -
  from assms(2,3) have "count_list (take i (pending st) @ drop (Suc i) (pending st)) (Merged k a)
      = count_list (pending st) (Merged k a)" for k a
    by (intro count_list_remove_nth) simp_all
  with assms(1) show ?thesis
    by (simp add: registry_ok_def drop_pending_def list_all_take list_all_drop)
qed

lemma registry_ok_drop_merged:
  assumes "registry_ok st" "i < length (pending st)" "pending st ! i = Merged p a"
  shows "registry_ok ((drop_pending i st)\<lparr>activeAsyncOperations :=
            AList.delete p (activeAsyncOperations (drop_pending i st))\<rparr>)"
proof -
  have cnt: "count_list (take i (pending st) @ drop (Suc i) (pending st)) (Merged k b)
      = count_list (pending st) (Merged k b)" if "k \<noteq> p" for k b
    using assms(2,3) that by (intro count_list_remove_nth) simp_all
  from assms(1) have d: "distinct (map fst (activeAsyncOperations st))"
    and c: "list_all (\<lambda>(k, a). count_list (pending st) (Merged k a) = 1) (activeAsyncOperations st)"
    and b: "list_all (array_in_store (length (arrays st))) (pending st)"
    by (simp_all add: registry_ok_def)
  have "list_all (\<lambda>(k, a). count_list (take i (pending st) @ drop (Suc i) (pending st)) (Merged k a) = 1)
          (AList.delete p (activeAsyncOperations st))"
    using c cnt by (auto simp: list_all_iff set_delete)
  with d b show ?thesis
    by (simp add: registry_ok_def drop_pending_def distinct_delete list_all_take list_all_drop)
qed

lemma snd_invoke: "snd (invoke f e r st) = st\<lparr>trace := trace st @ fst (call f e r)\<rparr>"
  by (simp add: invoke_def split_beta)

lemma registry_ok_trace [simp]: "registry_ok (st\<lparr>trace := t\<rparr>) = registry_ok st"
  by (simp add: registry_ok_def)

lemma registry_ok_lruCache [simp]: "registry_ok (st\<lparr>lruCache := c\<rparr>) = registry_ok st"
  by (simp add: registry_ok_def)

lemma cache_ok_trace [simp]: "cache_ok (st\<lparr>trace := t\<rparr>) = cache_ok st"
  by (simp add: cache_ok_def)

lemma cache_ok_active [simp]: "cache_ok (st\<lparr>activeAsyncOperations := m\<rparr>) = cache_ok st"
  by (simp add: cache_ok_def)

lemma cache_ok_call_provider [simp]: "cache_ok (call_provider path options callback st) = cache_ok st"
  by (simp add: cache_ok_def call_provider_def)

lemma cache_ok_push_callback [simp]: "cache_ok (push_callback a cb st) = cache_ok st"
  by (simp add: cache_ok_def push_callback_def)

lemma cache_ok_start_operation [simp]: "cache_ok (start_operation p cb st) = cache_ok st"
  by (simp add: cache_ok_def start_operation_def Let_def)

lemma cache_ok_drop_pending [simp]: "cache_ok (drop_pending i st) = cache_ok st"
  by (simp add: cache_ok_def drop_pending_def)

lemma cache_ok_run_array [simp]: "cache_ok (snd (run_array a e r st)) = cache_ok st"
  by (simp add: cache_ok_def)

lemma registry_ok_run_array [simp]: "registry_ok (snd (run_array a e r st)) = registry_ok st"
  by (simp add: registry_ok_def run_array_def split_beta)

lemma provide_preserves:
  assumes "registry_ok st" "cache_ok st"
  shows "registry_ok (snd (provide path opts cb st)) \<and> cache_ok (snd (provide path opts cb st))"
proof (cases path)
  case (Str p)
  let ?st1 = "st\<lparr>lruCache := snd (lru_get p (lruCache st))\<rparr>"
  have ok1: "registry_ok ?st1" "cache_ok ?st1"
    using assms by (simp_all add: cache_ok_get)
  show ?thesis
  proof (cases "truthy (fst (shift_args opts cb))")
    case True
    with assms Str show ?thesis
      by (simp add: provide_def split_beta registry_ok_call_provider)
  next
    case False
    show ?thesis
    proof (cases "fst (lru_get p (lruCache st))")
      case (Some entry)
      with False Str ok1 show ?thesis
        by (simp add: provide_def split_beta snd_invoke Let_def)
    next
      case None
      show ?thesis
      proof (cases "map_of (activeAsyncOperations st) p")
        case (Some a)
        with None False Str ok1 show ?thesis
          by (simp add: provide_def split_beta registry_ok_push_callback)
      next
        case none: None
        then have "map_of (activeAsyncOperations ?st1) p = None" by simp
        with ok1 have "registry_ok (start_operation p (snd (shift_args opts cb)) ?st1)"
          by (intro registry_ok_start_operation)
        with none None False Str ok1 show ?thesis
          by (simp add: provide_def split_beta)
      qed
    qed
  qed
qed (use assms in \<open>simp_all add: provide_def split_beta snd_invoke\<close>)

lemma complete_preserves:
  assumes "registry_ok st" "cache_ok st"
  shows "registry_ok (snd (complete i e r st)) \<and> cache_ok (snd (complete i e r st))"
proof (cases "i < length (pending st)")
  case False
  with assms show ?thesis by (simp add: complete_def)
next
  case True
  show ?thesis
  proof (cases "pending st ! i")
    case (Direct path options callback)
    with True assms show ?thesis
      by (simp add: complete_def snd_invoke registry_ok_drop_direct)
  next
    case (Merged p a)
    let ?st2 = "(drop_pending i st)\<lparr>activeAsyncOperations :=
                 AList.delete p (activeAsyncOperations (drop_pending i st))\<rparr>"
    have r2: "registry_ok ?st2" using assms(1) True Merged by (rule registry_ok_drop_merged)
    have "cache_ok ?st2" using assms(2) by simp
    from storeResult_cached[OF this, of p e r] obtain c where c:
      "storeResult p e r ?st2 = Inr (?st2\<lparr>lruCache := c\<rparr>)" "cache_ok (?st2\<lparr>lruCache := c\<rparr>)"
      by blast
    have "complete i e r st = run_array a e r (?st2\<lparr>lruCache := c\<rparr>)"
      using True Merged c(1) by (simp add: complete_def Let_def)
    with r2 c(2) show ?thesis by simp
  qed
qed

lemma finish_sync_preserves:
  assumes "registry_ok st" "cache_ok st"
  shows "registry_ok (snd (finish_sync p cbs e r answer st)) \<and>
         cache_ok (snd (finish_sync p cbs e r answer st))"
proof -
  from storeResult_cached[OF assms(2), of p e r] obtain c where c:
    "storeResult p e r st = Inr (st\<lparr>lruCache := c\<rparr>)" "cache_ok (st\<lparr>lruCache := c\<rparr>)"
    by blast
  with assms(1) show ?thesis
    by (cases cbs) (simp_all add: finish_sync_def split_beta split: option.splits)
qed

lemma provideSync_preserves:
  assumes "registry_ok st" "cache_ok st"
  shows "registry_ok (snd (provideSync path opts outcome st)) \<and>
         cache_ok (snd (provideSync path opts outcome st))"
proof (cases path)
  case (Str p)
  let ?st1 = "st\<lparr>lruCache := snd (lru_get p (lruCache st))\<rparr>"
  have ok1: "registry_ok ?st1" "cache_ok ?st1"
    using assms by (simp_all add: cache_ok_get)
  show ?thesis
  proof (cases "truthy opts")
    case True
    with assms Str show ?thesis by (simp add: provideSync_def)
  next
    case False
    show ?thesis
    proof (cases "fst (lru_get p (lruCache st))")
      case (Some entry)
      with False Str ok1 show ?thesis by (simp add: provideSync_def split_beta Let_def)
    next
      case None
      let ?st3 = "?st1\<lparr>activeAsyncOperations := AList.delete p (activeAsyncOperations ?st1),
                       trace := trace ?st1 @ [SyncProviderCall path Undefined]\<rparr>"
      have "registry_ok ?st3" "cache_ok ?st3"
        using ok1 registry_ok_delete[of ?st1 p] by simp_all
      then have "registry_ok (snd (finish_sync p cbs e r answer ?st3)) \<and>
         cache_ok (snd (finish_sync p cbs e r answer ?st3))" for cbs e r answer
        by (rule finish_sync_preserves)
      with None False Str show ?thesis
        by (cases outcome) (simp_all add: provideSync_def split_beta Let_def)
    qed
  qed
qed (use assms in \<open>simp_all add: provideSync_def\<close>)

lemma purge_preserves:
  assumes "registry_ok st" "cache_ok st"
  shows "registry_ok (purge w st) \<and> cache_ok (purge w st)"
  using assms by (simp add: purge_def cache_ok_def lru_purge_abs)

lemma purgeParent_preserves:
  assumes "registry_ok st" "cache_ok st"
  shows "registry_ok (snd (purgeParent w st)) \<and> cache_ok (snd (purgeParent w st))"
proof (cases w)
  case (Single v)
  with assms purge_preserves[OF assms] show ?thesis by (cases v) simp_all
next
  case (Collection items)
  with purge_preserves[OF assms] show ?thesis by simp
qed

lemma exec_preserves:
  assumes "registry_ok st" "cache_ok st"
  shows "registry_ok (exec st c) \<and> cache_ok (exec st c)"
  using provide_preserves[OF assms] complete_preserves[OF assms] provideSync_preserves[OF assms]
    purge_preserves[OF assms] purgeParent_preserves[OF assms]
  by (cases c) simp_all

lemma run_preserves:
  assumes "registry_ok st" "cache_ok st"
  shows "registry_ok (run calls st) \<and> cache_ok (run calls st)"
  using assms
proof (induction calls arbitrary: st)
  case Nil
  then show ?case by (simp add: run_Nil)
next
  case (Cons c calls)
  from exec_preserves[OF Cons.prems, of c] Cons.IH[of "exec st c"] show ?case
    by (simp add: run_Cons)
qed

lemma registry_ok_new: "registry_ok (CacheBackend_new d)"
  by (simp add: registry_ok_def CacheBackend_new_def)






lemma lru_inv_distinct_keys:
  assumes "lru_inv s"
  shows "distinct (map fst (lru_entries s))"
proof -
  from assms have rep: "lru_rep s (lru_order s)" by (simp add: lru_inv_def)
  from lru_rep_distinct_keys[OF rep] lru_rep_entries[OF rep] show ?thesis by simp
qed

lemma map_of_filter_other:
  "k \<noteq> p \<Longrightarrow> map_of (filter (\<lambda>e. fst e \<noteq> p) es) k = map_of es k"
  by (induction es) auto

lemma map_of_snoc_other:
  "k \<noteq> p \<Longrightarrow> map_of (xs @ [(p, v)]) k = map_of xs k"
  by (simp add: map_add_def split: option.splits)

lemma map_of_tl_other:
  assumes "distinct (map fst es)" "map_of es k = Some v" "fst (hd es) \<noteq> k"
  shows "map_of (tl es) k = Some v"
  using assms by (cases es) (auto split: if_splits)

lemma lru_get_keeps:
  assumes "lru_inv s"
  shows "map_of (lru_entries (snd (lru_get p s))) k = map_of (lru_entries s) k"
proof (cases "map_of (lru_entries s) p")
  case None
  with lru_get_abs(4)[OF assms, of p] show ?thesis by simp
next
  case (Some v)
  with lru_get_abs(4)[OF assms, of p]
  have e: "lru_entries (snd (lru_get p s)) = filter (\<lambda>e. fst e \<noteq> p) (lru_entries s) @ [(p, v)]"
    by simp
  show ?thesis
  proof (cases "k = p")
    case True
    have "p \<notin> fst ` set (filter (\<lambda>e. fst e \<noteq> p) (lru_entries s))" by auto
    from map_of_snoc_fresh[OF this, of v] Some True e show ?thesis by simp
  next
    case False
    from map_of_snoc_other[OF False, of "filter (\<lambda>e. fst e \<noteq> p) (lru_entries s)" v]
      map_of_filter_other[OF False, of "lru_entries s"]
    show ?thesis unfolding e by simp
  qed
qed

lemma lru_put_keeps:
  assumes "lru_inv s" "1 \<le> cap s" "k \<noteq> p" "map_of (lru_entries s) k = Some v"
    "lru_put p x s = Inr s'"
    "\<not> (map_of (lru_entries s) p = None \<and> cap s \<le> int (length (lru_entries s)) \<and>
        fst (hd (lru_entries s)) = k)"
  shows "map_of (lru_entries s') k = Some v"
proof -
  from lru_put_abs[OF assms(1,2), of p x] assms(5)
  have e: "lru_entries s' =
             (if p \<in> fst ` set (lru_entries s)
              then filter (\<lambda>e. fst e \<noteq> p) (lru_entries s) @ [(p, x)]
              else if int (length (lru_entries s)) \<ge> cap s
              then tl (lru_entries s) @ [(p, x)]
              else lru_entries s @ [(p, x)])" by auto
  have d: "distinct (map fst (lru_entries s))" using assms(1) by (rule lru_inv_distinct_keys)
  show ?thesis
  proof (cases "p \<in> fst ` set (lru_entries s)")
    case True
    with e have e': "lru_entries s' = filter (\<lambda>e. fst e \<noteq> p) (lru_entries s) @ [(p, x)]" by simp
    from map_of_snoc_other[OF assms(3), of "filter (\<lambda>e. fst e \<noteq> p) (lru_entries s)" x]
      map_of_filter_other[OF assms(3), of "lru_entries s"] assms(4)
    show ?thesis unfolding e' by simp
  next
    case False
    then have none: "map_of (lru_entries s) p = None" by (simp add: map_of_eq_None_iff)
    show ?thesis
    proof (cases "int (length (lru_entries s)) \<ge> cap s")
      case True
      with none assms(6) have "fst (hd (lru_entries s)) \<noteq> k" by simp
      with d assms(4) have "map_of (tl (lru_entries s)) k = Some v" by (rule map_of_tl_other)
      moreover from e False True have "lru_entries s' = tl (lru_entries s) @ [(p, x)]" by simp
      ultimately show ?thesis
        using map_of_snoc_other[OF assms(3), of "tl (lru_entries s)" x] by simp
    next
      case room: False
      with e False have "lru_entries s' = lru_entries s @ [(p, x)]" by simp
      then show ?thesis
        using map_of_snoc_other[OF assms(3), of "lru_entries s" x] assms(4) by simp
    qed
  qed
qed

lemma lruCache_invoke [simp]: "lruCache (snd (invoke f e r st)) = lruCache st"
  by (simp add: invoke_def split_beta)

lemma lruCache_call_provider [simp]: "lruCache (call_provider path options callback st) = lruCache st"
  by (simp add: call_provider_def)

lemma lruCache_push_callback [simp]: "lruCache (push_callback a cb st) = lruCache st"
  by (simp add: push_callback_def)

lemma lruCache_start_operation [simp]: "lruCache (start_operation p cb st) = lruCache st"
  by (simp add: start_operation_def Let_def)

lemma lruCache_drop_pending [simp]: "lruCache (drop_pending i st) = lruCache st"
  by (simp add: drop_pending_def)

lemma provide_lruCache:
  "lruCache (snd (provide path opts cb st)) = lruCache st \<or>
   (\<exists>p. lruCache (snd (provide path opts cb st)) = snd (lru_get p (lruCache st)))"
  by (cases path)
     (auto simp: provide_def split_beta Let_def split: option.splits)

lemma finish_sync_lruCache:
  assumes "cache_ok st"
  shows "\<exists>x. lru_put p x (lruCache st) = Inr (lruCache (snd (finish_sync p cbs e r answer st)))"
proof -
  from storeResult_ok[OF assms, of p e r] obtain c where c:
    "storeResult p e r st = Inr (st\<lparr>lruCache := c\<rparr>)"
    "lru_put p \<lparr>entry_err = e, entry_result = r\<rparr> (lruCache st) = Inr c" by blast
  have "lruCache (snd (finish_sync p cbs e r answer st)) = c"
    by (cases cbs) (simp_all add: finish_sync_def c(1) split_beta split: option.splits)
  with c(2) show ?thesis by blast
qed

lemma lru_get_fst_cached: "cache_ok st \<Longrightarrow> fst (lru_get p (lruCache st)) = cached st p"
  by (simp add: cache_ok_def cached_def lru_get_abs)

lemma exec_lruCache:
  assumes "cache_ok st" "\<not> purges st c"
  shows "case stores st c of
           None \<Rightarrow> lruCache (exec st c) = lruCache st \<or>
                   (\<exists>p. lruCache (exec st c) = snd (lru_get p (lruCache st)))
         | Some p \<Rightarrow> \<exists>x. lru_put p x (lruCache st) = Inr (lruCache (exec st c))"
proof (cases c)
  case (Provide path opts cb)
  with provide_lruCache[of path opts cb st] show ?thesis by simp
next
  case (ProvideSync path opts outcome)
  show ?thesis
  proof (cases path)
    case (Str p)
    show ?thesis
    proof (cases "truthy opts")
      case True
      with ProvideSync Str show ?thesis by (simp add: provideSync_def)
    next
      case False
      show ?thesis
      proof (cases "cached st p")
        case (Some entry)
        then have "fst (lru_get p (lruCache st)) = Some entry"
          using assms(1) by (simp add: lru_get_fst_cached)
        with ProvideSync Str False Some show ?thesis
          by (auto simp: provideSync_def split_beta Let_def)
      next
        case None
        then have g: "lru_get p (lruCache st) = (None, lruCache st)"
          using assms(1) by (simp add: cache_ok_def cached_def lru_get_absent)
        let ?st3 = "st\<lparr>activeAsyncOperations := AList.delete p (activeAsyncOperations st),
                        trace := trace st @ [SyncProviderCall path Undefined]\<rparr>"
        have ok3: "cache_ok ?st3" using assms(1) by (simp add: cache_ok_def)
        obtain e r answer where
          f: "provideSync path opts outcome st
                = finish_sync p (map_of (activeAsyncOperations st) p) e r answer ?st3"
          using Str False g by (cases outcome) (simp_all add: provideSync_def Let_def)
        from finish_sync_lruCache[OF ok3, of p "map_of (activeAsyncOperations st) p" e r answer]
        have "\<exists>x. lru_put p x (lruCache st) = Inr (lruCache (snd (provideSync path opts outcome st)))"
          by (simp add: f)
        with ProvideSync Str False None show ?thesis by simp
      qed
    qed
  qed (use ProvideSync in \<open>simp_all add: provideSync_def\<close>)
next
  case (Complete i e r)
  show ?thesis
  proof (cases "i < length (pending st)")
    case False
    with Complete show ?thesis by (simp add: complete_def)
  next
    case True
    show ?thesis
    proof (cases "pending st ! i")
      case (Direct path options callback)
      with True Complete show ?thesis by (simp add: complete_def)
    next
      case (Merged p a)
      let ?st2 = "(drop_pending i st)\<lparr>activeAsyncOperations :=
                 AList.delete p (activeAsyncOperations (drop_pending i st))\<rparr>"
      have "cache_ok ?st2" using assms(1) by (simp add: cache_ok_def)
      from storeResult_ok[OF this, of p e r] obtain c where c:
        "storeResult p e r ?st2 = Inr (?st2\<lparr>lruCache := c\<rparr>)"
        "lru_put p \<lparr>entry_err = e, entry_result = r\<rparr> (lruCache ?st2) = Inr c" by blast
      have "complete i e r st = run_array a e r (?st2\<lparr>lruCache := c\<rparr>)"
        using True Merged c(1) by (simp add: complete_def Let_def)
      then have "lruCache (snd (complete i e r st)) = c" by simp
      with c(2) True Merged Complete show ?thesis by auto
    qed
  qed
next
  case (PurgeCall w)
  with assms(2) show ?thesis by simp
next
  case (PurgeParentCall w)
  with assms(2) have thrown: "fst (purgeParent w st) \<noteq> None" by simp
  have "snd (purgeParent w st) = st"
  proof (cases w)
    case (Single v)
    with thrown show ?thesis by (cases v) (simp_all split: if_splits)
  next
    case (Collection items)
    with thrown show ?thesis by simp
  qed
  with PurgeParentCall show ?thesis by simp
qed

lemma cache_ok_purge: "cache_ok st \<Longrightarrow> cache_ok (purge w st)"
  by (simp add: purge_def cache_ok_def lru_purge_abs)

lemma exec_cache_ok:
  assumes "cache_ok st"
  shows "cache_ok (exec st c)"
proof (cases "purges st c")
  case True
  then show ?thesis
  proof (cases c)
    case (PurgeCall w)
    with assms show ?thesis by (simp add: cache_ok_purge)
  next
    case (PurgeParentCall w)
    show ?thesis
    proof (cases w)
      case (Single v)
      with PurgeParentCall assms show ?thesis
        by (cases v) (simp_all add: cache_ok_purge)
    next
      case (Collection items)
      with PurgeParentCall assms show ?thesis by (simp add: cache_ok_purge)
    qed
  qed simp_all
next
  case False
  from assms have inv: "lru_inv (lruCache st)" and cap: "1 \<le> cap (lruCache st)"
    by (simp_all add: cache_ok_def)
  show ?thesis
  proof (cases "stores st c")
    case None
    with exec_lruCache[OF assms False]
    have "lruCache (exec st c) = lruCache st \<or>
          (\<exists>p. lruCache (exec st c) = snd (lru_get p (lruCache st)))" by simp
    with inv cap show ?thesis by (auto simp: cache_ok_def lru_get_abs)
  next
    case (Some p)
    with exec_lruCache[OF assms False] obtain x where
      x: "lru_put p x (lruCache st) = Inr (lruCache (exec st c))" by auto
    from lru_put_abs[OF inv cap, of p x] x cap show ?thesis by (auto simp: cache_ok_def)
  qed
qed

lemma exec_keeps:
  assumes "cache_ok st" "cached st k = Some entry" "\<not> disturbs k st c"
  shows "cached (exec st c) k = Some entry"
proof -
  from assms(1) have inv: "lru_inv (lruCache st)" and cap: "1 \<le> cap (lruCache st)"
    by (simp_all add: cache_ok_def)
  from assms(3) have np: "\<not> purges st c" by (simp add: disturbs_def)
  show ?thesis
  proof (cases "stores st c")
    case None
    with exec_lruCache[OF assms(1) np]
    have "lruCache (exec st c) = lruCache st \<or>
          (\<exists>p. lruCache (exec st c) = snd (lru_get p (lruCache st)))" by simp
    with assms(2) inv show ?thesis by (auto simp: cached_def lru_get_keeps)
  next
    case (Some p)
    with assms(3) have ne: "k \<noteq> p" and ev: "evicted_by st p \<noteq> Some k"
      by (auto simp: disturbs_def)
    from Some exec_lruCache[OF assms(1) np] obtain x where
      x: "lru_put p x (lruCache st) = Inr (lruCache (exec st c))" by auto
    have len: "lru_size (lruCache st) = length (lru_entries (lruCache st))"
      using inv by (simp add: lru_size_def lru_inv_length)
    have "\<not> (map_of (lru_entries (lruCache st)) p = None \<and>
        cap (lruCache st) \<le> int (length (lru_entries (lruCache st))) \<and>
        fst (hd (lru_entries (lruCache st))) = k)"
    proof
      assume h: "map_of (lru_entries (lruCache st)) p = None \<and>
        cap (lruCache st) \<le> int (length (lru_entries (lruCache st))) \<and>
        fst (hd (lru_entries (lruCache st))) = k"
      with cap obtain a list where al: "lru_entries (lruCache st) = a # list"
        by (cases "lru_entries (lruCache st)") auto
      from h have "cached st p = None" "cap (lruCache st) \<le> int (lru_size (lruCache st))"
        by (simp_all add: cached_def len)
      moreover from h al have "fst a = k" by simp
      ultimately have "evicted_by st p = Some k" by (simp add: evicted_by_def al)
      with ev show False by simp
    qed
    with lru_put_keeps[OF inv cap ne _ x, of entry] assms(2) show ?thesis
      by (simp add: cached_def)
  qed
qed

lemma run_keeps:
  assumes "cache_ok st" "cached st k = Some entry" "undisturbed k st cs"
  shows "cached (run cs st) k = Some entry \<and> cache_ok (run cs st)"
  using assms
proof (induction cs arbitrary: st)
  case Nil
  then show ?case by (simp add: run_Nil)
next
  case (Cons c cs)
  from Cons.prems(3) have nd: "\<not> disturbs k st c" and rest: "undisturbed k (exec st c) cs"
    by simp_all
  have "cache_ok (exec st c)" using Cons.prems(1) by (rule exec_cache_ok)
  moreover have "cached (exec st c) k = Some entry"
    using Cons.prems(1,2) nd by (rule exec_keeps)
  ultimately show ?case using rest Cons.IH[of "exec st c"] by (simp add: run_Cons)
qed

text \<open>Every state of a backend that \<^verbatim>\<open>createBackend\<close> made with a cache is
  well formed, whatever calls it has served.\<close>

lemma createBackend_reachable_ok:
  assumes "createBackend d = Inr st"
  shows "cache_ok (run calls st) \<and> registry_ok (run calls st)"
proof -
  from assms have "1 \<le> d" "st = CacheBackend_new d"
    by (simp_all add: createBackend_def split: if_splits)
  then have "registry_ok st" "cache_ok st"
    by (simp_all add: registry_ok_new cache_ok_new)
  from run_preserves[OF this, of calls] show ?thesis by simp
qed

section \<open>Claims\<close>



text \<open>
  C2 at its failing input.  One callback waits for \<^verbatim>\<open>a\<close>; \<^verbatim>\<open>provideSync("a")\<close>
  takes it over and calls it with the synchronous result; when the asynchronous provider
  answers afterwards, the same callback is called a second time, with the asynchronous
  result.  With two callbacks waiting, the later answer calls nobody.
\<close>

theorem stolen_single_callback_called_twice:
  "trace (run [Provide (Str ''a'') (Fun 7 None) Undefined,
               ProvideSync (Str ''a'') Undefined (Inr (Obj 11)),
               Complete 0 Null (Obj 12)] (CacheBackend_new 1000))
     = [ProviderCall (Str ''a'') Undefined, SyncProviderCall (Str ''a'') Undefined,
        Invoke 7 Undefined (Obj 11), Invoke 7 Null (Obj 12)] \<and>
   trace (run [Provide (Str ''a'') (Fun 7 None) Undefined,
               Provide (Str ''a'') (Fun 8 None) Undefined,
               ProvideSync (Str ''a'') Undefined (Inr (Obj 11)),
               Complete 0 Null (Obj 12)] (CacheBackend_new 1000))
     = [ProviderCall (Str ''a'') Undefined, SyncProviderCall (Str ''a'') Undefined,
        Invoke 7 Undefined (Obj 11), Invoke 8 Undefined (Obj 11)]"
  by code_simp




text \<open>
  C4.  \<^verbatim>\<open>purge\<close> of a \<^verbatim>\<open>CacheBackend\<close>, whatever its argument (absent, a string, a
  collection of paths, or anything else): afterwards the cache has no entry, and no path
  has a cached outcome.
\<close>

theorem purge_clears_whole_cache:
  "lru_size (lruCache (purge w st)) = 0 \<and> lru_entries (lruCache (purge w st)) = [] \<and>
   cached (purge w st) k = None \<and> fst (lru_get k (lruCache (purge w st))) = None"
proof -
  have "cache_map (lruCache (purge w st)) = []"
    by (simp add: purge_def lru_purge_def)
  then have "lru_size (lruCache (purge w st)) = 0" "fst (lru_get k (lruCache (purge w st))) = None"
    by (simp_all add: lru_size_def lru_get_def)
  moreover have "cached (purge w st) k = None" by (rule cached_purge)
  moreover have "lru_entries (lruCache (purge w st)) = []"
    by (cases "length (heap (lruCache st))")
       (simp_all add: purge_def lru_purge_def lru_entries_def lru_order_def)
  ultimately show ?thesis by simp
qed

theorem purge_clears_whole_cache_witness:
  "cached (run [ProvideSync (Str ''a'') Undefined (Inr (Obj 1)),
                ProvideSync (Str ''b'') Undefined (Inr (Obj 2))] (CacheBackend_new 1000)) ''b''
     = Some \<lparr>entry_err = Undefined, entry_result = Obj 2\<rparr> \<and>
   cached (purge (Collection [''a''])
            (run [ProvideSync (Str ''a'') Undefined (Inr (Obj 1)),
                  ProvideSync (Str ''b'') Undefined (Inr (Obj 2))] (CacheBackend_new 1000))) ''b''
     = None"
proof -
  have "cached (run [ProvideSync (Str ''a'') Undefined (Inr (Obj 1)),
                ProvideSync (Str ''b'') Undefined (Inr (Obj 2))] (CacheBackend_new 1000)) ''b''
     = Some \<lparr>entry_err = Undefined, entry_result = Obj 2\<rparr>"
    by code_simp
  with purge_clears_whole_cache[of "Collection [''a'']"
      "run [ProvideSync (Str ''a'') Undefined (Inr (Obj 1)),
            ProvideSync (Str ''b'') Undefined (Inr (Obj 2))] (CacheBackend_new 1000)" "''b''"]
  show ?thesis by simp
qed

text \<open>
  C5, as the code has it.  \<^verbatim>\<open>purgeParent(["/a/b/c"])\<close> hands the set of parent
  directories, here \<^verbatim>\<open>{"/a/b"}\<close>, to \<^verbatim>\<open>purge\<close>, which clears the whole cache: the
  entry for \<^verbatim>\<open>/a/b\<close> is invalidated, and so is every other entry, those for
  \<^verbatim>\<open>/a\<close> and \<^verbatim>\<open>/a/b/c\<close> among them.
\<close>

theorem purgeParent_clears_whole_cache:
  "parent_set [] [''/a/b/c''] = [''/a/b''] \<and>
   fst (purgeParent (Collection [''/a/b/c'']) st) = None \<and>
   cached (snd (purgeParent (Collection [''/a/b/c'']) st)) ''/a/b'' = None \<and>
   cached (snd (purgeParent (Collection [''/a/b/c'']) st)) ''/a'' = None \<and>
   cached (snd (purgeParent (Collection [''/a/b/c'']) st)) ''/a/b/c'' = None \<and>
   cached (snd (purgeParent (Collection [''/a/b/c'']) st)) k = None"
proof -
  have "dirname ''/a/b/c'' = ''/a/b''" by code_simp
  then have "parent_set [] [''/a/b/c''] = [''/a/b'']" by (simp add: set_add_def)
  then show ?thesis by (simp add: cached_purge)
qed

theorem purgeParent_clears_whole_cache_witness:
  "cached (snd (purgeParent (Collection [''/a/b/c''])
      (run [ProvideSync (Str ''/a'') Undefined (Inr (Obj 1)),
            ProvideSync (Str ''/a/b'') Undefined (Inr (Obj 2)),
            ProvideSync (Str ''/a/b/c'') Undefined (Inr (Obj 3))] (CacheBackend_new 1000)))) ''/a/b''
     = None"
  using purgeParent_clears_whole_cache[of
      "run [ProvideSync (Str ''/a'') Undefined (Inr (Obj 1)),
            ProvideSync (Str ''/a/b'') Undefined (Inr (Obj 2)),
            ProvideSync (Str ''/a/b/c'') Undefined (Inr (Obj 3))] (CacheBackend_new 1000)"]
  by blast

text \<open>
  C5, as the claim has it, fails: with \<^verbatim>\<open>/a\<close>, \<^verbatim>\<open>/a/b\<close> and \<^verbatim>\<open>/a/b/c\<close> cached,
  \<^verbatim>\<open>purgeParent(["/a/b/c"])\<close> leaves neither \<^verbatim>\<open>/a\<close> nor \<^verbatim>\<open>/a/b/c\<close> cached.
\<close>

theorem purgeParent_keeps_other_entries_counterexample:
  "cached (run [ProvideSync (Str ''/a'') Undefined (Inr (Obj 1)),
                ProvideSync (Str ''/a/b'') Undefined (Inr (Obj 2)),
                ProvideSync (Str ''/a/b/c'') Undefined (Inr (Obj 3))] (CacheBackend_new 1000)) ''/a''
     = Some \<lparr>entry_err = Undefined, entry_result = Obj 1\<rparr> \<and>
   cached (run [ProvideSync (Str ''/a'') Undefined (Inr (Obj 1)),
                ProvideSync (Str ''/a/b'') Undefined (Inr (Obj 2)),
                ProvideSync (Str ''/a/b/c'') Undefined (Inr (Obj 3))] (CacheBackend_new 1000)) ''/a/b/c''
     = Some \<lparr>entry_err = Undefined, entry_result = Obj 3\<rparr> \<and>
   cached (snd (purgeParent (Collection [''/a/b/c''])
      (run [ProvideSync (Str ''/a'') Undefined (Inr (Obj 1)),
            ProvideSync (Str ''/a/b'') Undefined (Inr (Obj 2)),
            ProvideSync (Str ''/a/b/c'') Undefined (Inr (Obj 3))] (CacheBackend_new 1000)))) ''/a''
     = None \<and>
   cached (snd (purgeParent (Collection [''/a/b/c''])
      (run [ProvideSync (Str ''/a'') Undefined (Inr (Obj 1)),
            ProvideSync (Str ''/a/b'') Undefined (Inr (Obj 2)),
            ProvideSync (Str ''/a/b/c'') Undefined (Inr (Obj 3))] (CacheBackend_new 1000)))) ''/a/b/c''
     = None"
  by code_simp

text \<open>
  C6.  A cache of capacity \<open>C \<ge> 1\<close>, after any sequence of operations from the empty
  cache: it holds at most \<open>C\<close> entries, with distinct keys; \<^verbatim>\<open>put\<close> of a key that is
  present moves its entry to the most recently used position (the end of
  \<open>lru_entries\<close>) with the new value; \<^verbatim>\<open>put\<close> of a new key into a full cache drops
  the least recently used entry (the front) and appends the new one, and into a cache with
  room only appends; \<^verbatim>\<open>get\<close> of a present key returns its value and moves the entry to
  the most recently used position, and \<^verbatim>\<open>get\<close> of an absent key changes nothing.
\<close>

theorem lru_capacity_and_recency:
  fixes C :: int and xs :: "('k, 'v) lru_op list"
  assumes "1 \<le> C"
  shows "let s = lru_run xs (LRUCache_new C) in
     int (lru_size s) \<le> C \<and> lru_size s = length (lru_entries s) \<and>
     distinct (map fst (lru_entries s)) \<and>
     (\<forall>k v. \<exists>s'. lru_put k v s = Inr s' \<and>
        lru_entries s' =
          (if k \<in> fst ` set (lru_entries s)
           then filter (\<lambda>e. fst e \<noteq> k) (lru_entries s) @ [(k, v)]
           else if int (lru_size s) \<ge> C
           then tl (lru_entries s) @ [(k, v)]
           else lru_entries s @ [(k, v)])) \<and>
     (\<forall>k. fst (lru_get k s) = map_of (lru_entries s) k \<and>
        lru_entries (snd (lru_get k s)) =
          (case map_of (lru_entries s) k of
             None \<Rightarrow> lru_entries s
           | Some v \<Rightarrow> filter (\<lambda>e. fst e \<noteq> k) (lru_entries s) @ [(k, v)]))"
proof -
  define s :: "('k, 'v) LRUCache" where "s = lru_run xs (LRUCache_new C)"
  have "lru_inv (LRUCache_new C :: ('k, 'v) LRUCache)" "1 \<le> cap (LRUCache_new C :: ('k, 'v) LRUCache)"
    using assms by (simp_all add: lru_new_abs) (simp add: LRUCache_new_def)
  from lru_run_inv[OF this, of xs] have inv: "lru_inv s" and cap: "cap s = C"
    by (simp_all add: s_def LRUCache_new_def)
  from inv have rep: "lru_rep s (lru_order s)" and le: "int (lru_size s) \<le> C"
    by (simp_all add: lru_inv_def lru_size_def cap)
  have sz: "lru_size s = length (lru_entries s)"
    using inv by (simp add: lru_size_def lru_inv_length)
  have dk: "distinct (map fst (lru_entries s))"
    using lru_rep_distinct_keys[OF rep] lru_rep_entries[OF rep] by simp
  have put: "\<exists>s'. lru_put k v s = Inr s' \<and>
        lru_entries s' =
          (if k \<in> fst ` set (lru_entries s)
           then filter (\<lambda>e. fst e \<noteq> k) (lru_entries s) @ [(k, v)]
           else if int (lru_size s) \<ge> C
           then tl (lru_entries s) @ [(k, v)]
           else lru_entries s @ [(k, v)])" for k v
  proof -
    have "1 \<le> cap s" using cap assms by simp
    from lru_put_abs[OF inv this, of k v] obtain s' where
      "lru_put k v s = Inr s'"
      "lru_entries s' =
          (if k \<in> fst ` set (lru_entries s)
           then filter (\<lambda>e. fst e \<noteq> k) (lru_entries s) @ [(k, v)]
           else if int (length (lru_entries s)) \<ge> cap s
           then tl (lru_entries s) @ [(k, v)]
           else lru_entries s @ [(k, v)])" by blast
    then show ?thesis by (intro exI[of _ s']) (simp add: cap sz)
  qed
  have get: "fst (lru_get k s) = map_of (lru_entries s) k \<and>
        lru_entries (snd (lru_get k s)) =
          (case map_of (lru_entries s) k of
             None \<Rightarrow> lru_entries s
           | Some v \<Rightarrow> filter (\<lambda>e. fst e \<noteq> k) (lru_entries s) @ [(k, v)])" for k
    using lru_get_abs[OF inv, of k] by simp
  from le sz dk put get show ?thesis
    unfolding s_def[symmetric] Let_def by blast
qed

theorem lru_capacity_and_recency_witness:
  "(1::int) \<le> 2 \<and>
   lru_entries (lru_run [Put ''a'' (1::nat), Put ''b'' 2, Get ''a''] (LRUCache_new 2))
     = [(''b'', 2), (''a'', 1)] \<and>
   int (lru_size (lru_run [Put ''a'' (1::nat), Put ''b'' 2, Get ''a''] (LRUCache_new 2))) \<le> 2 \<and>
   (\<exists>s'. lru_put ''c'' 3 (lru_run [Put ''a'' (1::nat), Put ''b'' 2, Get ''a''] (LRUCache_new 2)) = Inr s' \<and>
         lru_entries s' = [(''a'', 1), (''c'', 3)])"
proof -
  define s :: "(string, nat) LRUCache" where
    "s = lru_run [Put ''a'' (1::nat), Put ''b'' 2, Get ''a''] (LRUCache_new 2)"
  have h: "(1::int) \<le> 2" by simp
  have e: "lru_entries s = [(''b'', 2), (''a'', 1)]"
    unfolding s_def by code_simp
  have n: "lru_size s = 2"
    unfolding s_def by code_simp
  from lru_capacity_and_recency[OF h, of "[Put ''a'' (1::nat), Put ''b'' 2, Get ''a'']"]
  have le: "int (lru_size s) \<le> 2"
    and put: "\<And>k v. \<exists>s'. lru_put k v s = Inr s' \<and>
        lru_entries s' =
          (if k \<in> fst ` set (lru_entries s)
           then filter (\<lambda>e. fst e \<noteq> k) (lru_entries s) @ [(k, v)]
           else if int (lru_size s) \<ge> 2
           then tl (lru_entries s) @ [(k, v)]
           else lru_entries s @ [(k, v)])"
    unfolding s_def[symmetric] Let_def by blast+
  from put[of "''c''" 3] have "\<exists>s'. lru_put ''c'' 3 s = Inr s' \<and> lru_entries s' = [(''a'', 1), (''c'', 3)]"
    by (simp add: e n)
  with h e le show ?thesis unfolding s_def by blast
qed

text \<open>
  C7, as the code has it.  On a \<^verbatim>\<open>CacheBackend\<close>, when the provider answers the path
  \<open>k\<close> with a truthy error, asynchronously (the completion of a merged invocation) or
  synchronously (\<^verbatim>\<open>provideSync\<close> on a miss), the error is stored as the cached
  outcome of \<open>k\<close>.  While a truthy error is the cached outcome of \<open>k\<close>, a lookup
  \<^verbatim>\<open>provide(k, cb)\<close> calls \<open>cb\<close> with exactly this error and \<^verbatim>\<open>provideSync(k)\<close>
  throws it; neither calls the provider, and both leave the outcome cached, so that any
  sequence of such lookups shows the replays and nothing else.  And the outcome stays
  cached through every sequence of calls of which none purges, stores a new outcome for
  \<open>k\<close>, or stores an outcome for an uncached path into the full cache while the entry
  of \<open>k\<close> is the least recently used: after such a sequence the lookups of \<open>k\<close>
  still replay the error without calling the provider.
\<close>

theorem cached_error_replayed_while_stored:
  assumes "cache_ok st" "truthy e"
  shows "(\<forall>i a r. i < length (pending st) \<and> pending st ! i = Merged k a \<longrightarrow>
            cached (snd (complete i e r st)) k = Some \<lparr>entry_err = e, entry_result = r\<rparr> \<and>
            cache_ok (snd (complete i e r st))) \<and>
         (cached st k = None \<longrightarrow>
            cached (snd (provideSync (Str k) Undefined (Inl e) st)) k
              = Some \<lparr>entry_err = e, entry_result = Undefined\<rparr> \<and>
            cache_ok (snd (provideSync (Str k) Undefined (Inl e) st))) \<and>
         (\<forall>entry. cached st k = Some entry \<and> entry_err entry = e \<longrightarrow>
            (\<forall>cb. is_function cb \<longrightarrow>
               trace (snd (provide (Str k) cb Undefined st)) = trace st @ [Invoke (fun_id cb) e Undefined] \<and>
               pending (snd (provide (Str k) cb Undefined st)) = pending st \<and>
               cached (snd (provide (Str k) cb Undefined st)) k = Some entry) \<and>
            (\<forall>outcome.
               fst (provideSync (Str k) Undefined outcome st) = Inl e \<and>
               trace (snd (provideSync (Str k) Undefined outcome st)) = trace st \<and>
               pending (snd (provideSync (Str k) Undefined outcome st)) = pending st \<and>
               cached (snd (provideSync (Str k) Undefined outcome st)) k = Some entry) \<and>
            (\<forall>calls. (\<forall>c\<in>set calls. lookup_of k c) \<longrightarrow>
               trace (run calls st) = trace st @ concat (map (replay_of e) calls) \<and>
               pending (run calls st) = pending st \<and>
               cached (run calls st) k = Some entry) \<and>
            (\<forall>calls. undisturbed k st calls \<longrightarrow>
               cached (run calls st) k = Some entry \<and>
               cache_ok (run calls st) \<and>
               (\<forall>cb. is_function cb \<longrightarrow>
                  trace (snd (provide (Str k) cb Undefined (run calls st)))
                    = trace (run calls st) @ [Invoke (fun_id cb) e Undefined] \<and>
                  pending (snd (provide (Str k) cb Undefined (run calls st))) = pending (run calls st)) \<and>
               (\<forall>outcome.
                  fst (provideSync (Str k) Undefined outcome (run calls st)) = Inl e \<and>
                  trace (snd (provideSync (Str k) Undefined outcome (run calls st))) = trace (run calls st) \<and>
                  pending (snd (provideSync (Str k) Undefined outcome (run calls st)))
                    = pending (run calls st))))"
proof (intro conjI allI impI)
  fix i a r assume "i < length (pending st) \<and> pending st ! i = Merged k a"
  then have "cached (snd (complete i e r st)) k = Some \<lparr>entry_err = e, entry_result = r\<rparr> \<and>
         cache_ok (snd (complete i e r st))"
    using assms(1) by (intro complete_merged_cached) simp_all
  then show "cached (snd (complete i e r st)) k = Some \<lparr>entry_err = e, entry_result = r\<rparr>"
    and "cache_ok (snd (complete i e r st))" by simp_all
next
  assume miss: "cached st k = None"
  let ?st3 = "st\<lparr>activeAsyncOperations := AList.delete k (activeAsyncOperations st),
                    trace := trace st @ [SyncProviderCall (Str k) Undefined]\<rparr>"
  have "cache_ok ?st3" using assms(1) by (simp add: cache_ok_def)
  from finish_sync_cached[OF this, of k "map_of (activeAsyncOperations st) k" e Undefined "Inl e"]
  have "cached (snd (provideSync (Str k) Undefined (Inl e) st)) k
              = Some \<lparr>entry_err = e, entry_result = Undefined\<rparr> \<and>
            cache_ok (snd (provideSync (Str k) Undefined (Inl e) st))"
    by (simp add: provideSync_miss[OF assms(1) miss] Let_def)
  then show "cached (snd (provideSync (Str k) Undefined (Inl e) st)) k
              = Some \<lparr>entry_err = e, entry_result = Undefined\<rparr>"
    and "cache_ok (snd (provideSync (Str k) Undefined (Inl e) st))" by simp_all
next
  fix entry cb assume h: "cached st k = Some entry \<and> entry_err entry = e" and f: "is_function cb"
  with assms have c: "cached st k = Some entry" and t: "truthy (entry_err entry)" by simp_all
  from provide_replays[OF assms(1) c t f] h
  show "trace (snd (provide (Str k) cb Undefined st)) = trace st @ [Invoke (fun_id cb) e Undefined]"
    and "pending (snd (provide (Str k) cb Undefined st)) = pending st"
    and "cached (snd (provide (Str k) cb Undefined st)) k = Some entry" by simp_all
next
  fix entry outcome assume h: "cached st k = Some entry \<and> entry_err entry = e"
  with assms have c: "cached st k = Some entry" and t: "truthy (entry_err entry)" by simp_all
  from provideSync_replays[OF assms(1) c t, of outcome] h
  show "fst (provideSync (Str k) Undefined outcome st) = Inl e"
    and "trace (snd (provideSync (Str k) Undefined outcome st)) = trace st"
    and "pending (snd (provideSync (Str k) Undefined outcome st)) = pending st"
    and "cached (snd (provideSync (Str k) Undefined outcome st)) k = Some entry" by simp_all
next
  fix entry calls assume h: "cached st k = Some entry \<and> entry_err entry = e"
    and l: "\<forall>c\<in>set calls. lookup_of k c"
  with assms have c: "cached st k = Some entry" and t: "truthy (entry_err entry)" by simp_all
  from lookups_replay[OF assms(1) c t l] h
  show "trace (run calls st) = trace st @ concat (map (replay_of e) calls)"
    and "pending (run calls st) = pending st"
    and "cached (run calls st) k = Some entry" by simp_all
next
  fix entry calls assume h: "cached st k = Some entry \<and> entry_err entry = e"
    and u: "undisturbed k st calls"
  with assms have c: "cached st k = Some entry" by simp
  from run_keeps[OF assms(1) c u]
  show "cached (run calls st) k = Some entry" and "cache_ok (run calls st)" by simp_all
next
  fix entry calls cb assume h: "cached st k = Some entry \<and> entry_err entry = e"
    and u: "undisturbed k st calls" and f: "is_function cb"
  with assms have c: "cached st k = Some entry" and t: "truthy (entry_err entry)" by simp_all
  from run_keeps[OF assms(1) c u]
  have c': "cached (run calls st) k = Some entry" and ok': "cache_ok (run calls st)" by simp_all
  from provide_replays[OF ok' c' t f] h
  show "trace (snd (provide (Str k) cb Undefined (run calls st)))
          = trace (run calls st) @ [Invoke (fun_id cb) e Undefined]"
    and "pending (snd (provide (Str k) cb Undefined (run calls st))) = pending (run calls st)"
    by simp_all
next
  fix entry calls outcome assume h: "cached st k = Some entry \<and> entry_err entry = e"
    and u: "undisturbed k st calls"
  with assms have c: "cached st k = Some entry" and t: "truthy (entry_err entry)" by simp_all
  from run_keeps[OF assms(1) c u]
  have c': "cached (run calls st) k = Some entry" and ok': "cache_ok (run calls st)" by simp_all
  from provideSync_replays[OF ok' c' t, of outcome] h
  show "fst (provideSync (Str k) Undefined outcome (run calls st)) = Inl e"
    and "trace (snd (provideSync (Str k) Undefined outcome (run calls st))) = trace (run calls st)"
    and "pending (snd (provideSync (Str k) Undefined outcome (run calls st))) = pending (run calls st)"
    by simp_all
qed

theorem cached_error_replayed_while_stored_witness:
  "cached (snd (provideSync (Str ''a'') Undefined (Inl (Error ''ENOENT'')) (CacheBackend_new 10))) ''a''
     = Some \<lparr>entry_err = Error ''ENOENT'', entry_result = Undefined\<rparr> \<and>
   trace (run [Provide (Str ''a'') (Fun 3 None) Undefined,
               ProvideSync (Str ''a'') Undefined (Inr (Obj 12))]
            (snd (provideSync (Str ''a'') Undefined (Inl (Error ''ENOENT'')) (CacheBackend_new 10))))
     = [SyncProviderCall (Str ''a'') Undefined, Invoke 3 (Error ''ENOENT'') Undefined] \<and>
   fst (provideSync (Str ''a'') Undefined (Inr (Obj 12))
          (snd (provideSync (Str ''a'') Undefined (Inl (Error ''ENOENT'')) (CacheBackend_new 10))))
     = Inl (Error ''ENOENT'') \<and>
   undisturbed ''a'' (snd (provideSync (Str ''a'') Undefined (Inl (Error ''ENOENT'')) (CacheBackend_new 2)))
     [ProvideSync (Str ''b'') Undefined (Inr (Obj 12)),
      Provide (Str ''a'') (Fun 4 None) Undefined,
      ProvideSync (Str ''c'') Undefined (Inr (Obj 13)),
      Provide (Str ''d'') (Fun 5 None) Undefined,
      PurgeParentCall (Single (Num 5))] \<and>
   fst (provideSync (Str ''a'') Undefined (Inr (Obj 14))
          (run [ProvideSync (Str ''b'') Undefined (Inr (Obj 12)),
                Provide (Str ''a'') (Fun 4 None) Undefined,
                ProvideSync (Str ''c'') Undefined (Inr (Obj 13)),
                Provide (Str ''d'') (Fun 5 None) Undefined,
                PurgeParentCall (Single (Num 5))]
             (snd (provideSync (Str ''a'') Undefined (Inl (Error ''ENOENT'')) (CacheBackend_new 2)))))
     = Inl (Error ''ENOENT'')"
proof -
  let ?e = "Error ''ENOENT''"
  let ?st1 = "snd (provideSync (Str ''a'') Undefined (Inl ?e) (CacheBackend_new 10))"
  let ?st2 = "snd (provideSync (Str ''a'') Undefined (Inl ?e) (CacheBackend_new 2))"
  let ?entry = "\<lparr>entry_err = ?e, entry_result = Undefined\<rparr>"
  let ?calls = "[ProvideSync (Str ''b'') Undefined (Inr (Obj 12)),
                Provide (Str ''a'') (Fun 4 None) Undefined,
                ProvideSync (Str ''c'') Undefined (Inr (Obj 13)),
                Provide (Str ''d'') (Fun 5 None) Undefined,
                PurgeParentCall (Single (Num 5))]"
  have h1: "cache_ok (CacheBackend_new 10)" by (simp add: cache_ok_new)
  have h1': "cache_ok (CacheBackend_new 2)" by (simp add: cache_ok_new)
  have h2: "truthy ?e" by simp
  have miss: "cached (CacheBackend_new 10) ''a'' = None" by (rule cached_new)
  have miss': "cached (CacheBackend_new 2) ''a'' = None" by (rule cached_new)
  from cached_error_replayed_while_stored[OF h1 h2, of "''a''"] miss
  have c1: "cached ?st1 ''a'' = Some ?entry" and ok1: "cache_ok ?st1" by blast+
  from cached_error_replayed_while_stored[OF h1' h2, of "''a''"] miss'
  have c2: "cached ?st2 ''a'' = Some ?entry" and ok2: "cache_ok ?st2" by blast+
  have t1: "trace ?st1 = [SyncProviderCall (Str ''a'') Undefined]" by code_simp
  have l: "\<forall>c\<in>set [Provide (Str ''a'') (Fun 3 None) Undefined,
               ProvideSync (Str ''a'') Undefined (Inr (Obj 12))]. lookup_of ''a'' c" by simp
  from cached_error_replayed_while_stored[OF ok1 h2, of "''a''"] c1
  have r: "\<forall>calls. (\<forall>c\<in>set calls. lookup_of ''a'' c) \<longrightarrow>
               trace (run calls ?st1) = trace ?st1 @ concat (map (replay_of ?e) calls)"
    and s: "\<forall>outcome. fst (provideSync (Str ''a'') Undefined outcome ?st1) = Inl ?e"
    by simp_all
  from r l have "trace (run [Provide (Str ''a'') (Fun 3 None) Undefined,
               ProvideSync (Str ''a'') Undefined (Inr (Obj 12))] ?st1)
      = trace ?st1 @ concat (map (replay_of ?e) [Provide (Str ''a'') (Fun 3 None) Undefined,
               ProvideSync (Str ''a'') Undefined (Inr (Obj 12))])" by blast
  then have tr: "trace (run [Provide (Str ''a'') (Fun 3 None) Undefined,
               ProvideSync (Str ''a'') Undefined (Inr (Obj 12))] ?st1)
      = [SyncProviderCall (Str ''a'') Undefined, Invoke 3 ?e Undefined]"
    by (simp add: t1)
  have u: "undisturbed ''a'' ?st2 ?calls" by code_simp
  from cached_error_replayed_while_stored[OF ok2 h2, of "''a''"] c2
  have "\<forall>calls. undisturbed ''a'' ?st2 calls \<longrightarrow>
          (\<forall>outcome. fst (provideSync (Str ''a'') Undefined outcome (run calls ?st2)) = Inl ?e)"
    by simp
  with u have "fst (provideSync (Str ''a'') Undefined (Inr (Obj 14)) (run ?calls ?st2)) = Inl ?e"
    by blast
  with c1 s tr u show ?thesis by blast
qed

text \<open>
  C7, as the claim has it, fails: in a cache of capacity 1 the error cached for
  \<^verbatim>\<open>a\<close> is evicted by the lookup of \<^verbatim>\<open>b\<close>; the next lookup of \<^verbatim>\<open>a\<close>, with
  no purge in between, calls the provider again and returns its new answer.
\<close>

theorem cached_error_until_purge_counterexample:
  "cached (run [ProvideSync (Str ''a'') Undefined (Inl (Error ''ENOENT''))] (CacheBackend_new 1)) ''a''
     = Some \<lparr>entry_err = Error ''ENOENT'', entry_result = Undefined\<rparr> \<and>
   provideSync (Str ''a'') Undefined (Inr (Obj 13))
      (run [ProvideSync (Str ''a'') Undefined (Inl (Error ''ENOENT'')),
            ProvideSync (Str ''b'') Undefined (Inr (Obj 12))] (CacheBackend_new 1))
   = (Inr (Obj 13),
      run [ProvideSync (Str ''a'') Undefined (Inl (Error ''ENOENT'')),
           ProvideSync (Str ''b'') Undefined (Inr (Obj 12)),
           ProvideSync (Str ''a'') Undefined (Inr (Obj 13))] (CacheBackend_new 1)) \<and>
   trace (run [ProvideSync (Str ''a'') Undefined (Inl (Error ''ENOENT'')),
               ProvideSync (Str ''b'') Undefined (Inr (Obj 12)),
               ProvideSync (Str ''a'') Undefined (Inr (Obj 13))] (CacheBackend_new 1))
     = [SyncProviderCall (Str ''a'') Undefined, SyncProviderCall (Str ''b'') Undefined,
        SyncProviderCall (Str ''a'') Undefined]"
  by code_simp

text \<open>
  C8.  The readJson provider of a file system without \<^verbatim>\<open>readJson\<close> is the synthesized
  function.  When the facade's \<^verbatim>\<open>readFile\<close> answers a path with \<^verbatim>\<open>(err, buffer)\<close>,
  the synthesized function answers: the read error alone, when it is truthy; otherwise the
  error \<^verbatim>\<open>No file content\<close>, when the buffer is falsy (absent) or has length zero;
  otherwise the error that parsing threw, when it threw; otherwise \<^verbatim>\<open>null\<close> and the
  parsed data.
\<close>

theorem synthesized_readJson_outcomes:
  assumes "\<And>k. readFile path k = k e buffer"
  shows "\<exists>readJson. readJson_provider None (Some readFile) parse = Some readJson \<and>
           readJson path callback =
             (if truthy e then callback e Undefined
              else if \<not> truthy buffer \<or> js_length buffer = Some 0
              then callback (Error ''No file content'') Undefined
              else case parse buffer of
                     Inl x \<Rightarrow> callback x Undefined
                   | Inr data \<Rightarrow> callback Null data)"
  using assms
  by (simp add: readJson_provider_def synth_readJson_def readJson_callback_def)

theorem synthesized_readJson_outcomes_witness:
  "(\<exists>readJson. readJson_provider None (Some (\<lambda>p k. k Null (Buffer []))) (\<lambda>b. Inr (Obj 3)) = Some readJson \<and>
      readJson (Str ''package.json'') (\<lambda>e r. (e, r)) = (Error ''No file content'', Undefined)) \<and>
   (\<exists>readJson. readJson_provider None (Some (\<lambda>p k. k Null (Buffer ''{}''))) (\<lambda>b. Inr (Obj 3)) = Some readJson \<and>
      readJson (Str ''package.json'') (\<lambda>e r. (e, r)) = (Null, Obj 3)) \<and>
   (\<exists>readJson. readJson_provider None (Some (\<lambda>p k. k Null (Buffer ''{''))) (\<lambda>b. Inl (Error ''SyntaxError''))
         = Some readJson \<and>
      readJson (Str ''package.json'') (\<lambda>e r. (e, r)) = (Error ''SyntaxError'', Undefined)) \<and>
   (\<exists>readJson. readJson_provider None (Some (\<lambda>p k. k (Error ''ENOENT'') Undefined)) (\<lambda>b. Inr (Obj 3))
         = Some readJson \<and>
      readJson (Str ''package.json'') (\<lambda>e r. (e, r)) = (Error ''ENOENT'', Undefined))"
proof -
  have "\<exists>readJson. readJson_provider None (Some (\<lambda>p k. k Null (Buffer []))) (\<lambda>b. Inr (Obj 3)) = Some readJson \<and>
      readJson (Str ''package.json'') (\<lambda>e r. (e, r)) = (Error ''No file content'', Undefined)"
    using synthesized_readJson_outcomes[where readFile = "\<lambda>p k. k Null (Buffer [])"
        and path = "Str ''package.json''" and e = Null and buffer = "Buffer []"
        and parse = "\<lambda>b. Inr (Obj 3)" and callback = "\<lambda>e r. (e, r)"]
    by simp
  moreover
  have "\<exists>readJson. readJson_provider None (Some (\<lambda>p k. k Null (Buffer ''{}''))) (\<lambda>b. Inr (Obj 3)) = Some readJson \<and>
      readJson (Str ''package.json'') (\<lambda>e r. (e, r)) = (Null, Obj 3)"
    using synthesized_readJson_outcomes[where readFile = "\<lambda>p k. k Null (Buffer ''{}'')"
        and path = "Str ''package.json''" and e = Null and buffer = "Buffer ''{}''"
        and parse = "\<lambda>b. Inr (Obj 3)" and callback = "\<lambda>e r. (e, r)"]
    by simp
  moreover
  have "\<exists>readJson. readJson_provider None (Some (\<lambda>p k. k Null (Buffer ''{''))) (\<lambda>b. Inl (Error ''SyntaxError''))
         = Some readJson \<and>
      readJson (Str ''package.json'') (\<lambda>e r. (e, r)) = (Error ''SyntaxError'', Undefined)"
    using synthesized_readJson_outcomes[where readFile = "\<lambda>p k. k Null (Buffer ''{'')"
        and path = "Str ''package.json''" and e = Null and buffer = "Buffer ''{''"
        and parse = "\<lambda>b. Inl (Error ''SyntaxError'')" and callback = "\<lambda>e r. (e, r)"]
    by simp
  moreover
  have "\<exists>readJson. readJson_provider None (Some (\<lambda>p k. k (Error ''ENOENT'') Undefined)) (\<lambda>b. Inr (Obj 3))
         = Some readJson \<and>
      readJson (Str ''package.json'') (\<lambda>e r. (e, r)) = (Error ''ENOENT'', Undefined)"
    using synthesized_readJson_outcomes[where readFile = "\<lambda>p k. k (Error ''ENOENT'') Undefined"
        and path = "Str ''package.json''" and e = "Error ''ENOENT''" and buffer = Undefined
        and parse = "\<lambda>b. Inr (Obj 3)" and callback = "\<lambda>e r. (e, r)"]
    by simp
  ultimately show ?thesis by blast
qed

text \<open>
  C9, as the code has it.  When the path of \<^verbatim>\<open>provide(k, cb)\<close> hits the cache, the
  callback is called inside \<^verbatim>\<open>provide\<close>, before it returns, with the stored error
  alone when that is truthy and with \<^verbatim>\<open>null\<close> and the stored result otherwise; the
  provider is not called, nothing is registered or left pending, and what the callback
  throws is thrown by \<^verbatim>\<open>provide\<close>.
\<close>

theorem cache_hit_calls_back_synchronously:
  assumes "cache_ok st" "cached st k = Some entry" "is_function cb"
  shows "fst (provide (Str k) cb Undefined st) = fun_throws cb \<and>
         trace (snd (provide (Str k) cb Undefined st)) = trace st @
           [if truthy (entry_err entry)
            then Invoke (fun_id cb) (entry_err entry) Undefined
            else Invoke (fun_id cb) Null (entry_result entry)] \<and>
         pending (snd (provide (Str k) cb Undefined st)) = pending st \<and>
         activeAsyncOperations (snd (provide (Str k) cb Undefined st)) = activeAsyncOperations st \<and>
         arrays (snd (provide (Str k) cb Undefined st)) = arrays st"
  by (simp add: provide_hit[OF assms])

theorem cache_hit_calls_back_synchronously_witness:
  "trace (snd (provide (Str ''a'') (Fun 7 None) Undefined
      (run [ProvideSync (Str ''a'') Undefined (Inr (Obj 11))] (CacheBackend_new 1000))))
     = [SyncProviderCall (Str ''a'') Undefined, Invoke 7 Null (Obj 11)] \<and>
   pending (snd (provide (Str ''a'') (Fun 7 None) Undefined
      (run [ProvideSync (Str ''a'') Undefined (Inr (Obj 11))] (CacheBackend_new 1000)))) = []"
proof -
  let ?st = "run [ProvideSync (Str ''a'') Undefined (Inr (Obj 11))] (CacheBackend_new 1000)"
  have h2: "cached ?st ''a'' = Some \<lparr>entry_err = Undefined, entry_result = Obj 11\<rparr>"
    by code_simp
  have h3: "is_function (Fun 7 None)" by simp
  have t: "trace ?st = [SyncProviderCall (Str ''a'') Undefined]" by code_simp
  have p: "pending ?st = []" by code_simp
  from cache_hit_calls_back_synchronously[OF cache_ok_hit_example h2 h3]
  show ?thesis by (simp add: t p)
qed

text \<open>
  C9, as the claim has it, fails: with \<^verbatim>\<open>a\<close> cached, the state in which
  \<^verbatim>\<open>provide("a", cb)\<close> returns has the call of \<open>cb\<close> in its trace already, and no
  invocation is pending that could deliver later.
\<close>

theorem cache_hit_deferred_counterexample:
  "provide (Str ''a'') (Fun 7 None) Undefined
      (run [ProvideSync (Str ''a'') Undefined (Inr (Obj 11))] (CacheBackend_new 1000))
   = (None,
      (run [ProvideSync (Str ''a'') Undefined (Inr (Obj 11))] (CacheBackend_new 1000))
        \<lparr>trace := [SyncProviderCall (Str ''a'') Undefined, Invoke 7 Null (Obj 11)]\<rparr>) \<and>
   pending (run [ProvideSync (Str ''a'') Undefined (Inr (Obj 11))] (CacheBackend_new 1000)) = []"
  by code_simp

text \<open>
  C10.  A \<^verbatim>\<open>CacheBackend\<close> checks the type of the path before it looks at the options:
  for a path that is not a string, \<^verbatim>\<open>provide\<close> calls the callback with the
  \<^verbatim>\<open>TypeError\<close> and \<^verbatim>\<open>provideSync\<close> throws it, whatever the options are, and the
  provider is not called (nothing else is observed, nothing becomes pending).  An
  \<^verbatim>\<open>OperationMergerBackend\<close> looks at the options first: with truthy options the call
  goes to the provider with the path as it is.
\<close>

theorem path_type_check_order:
  assumes "\<not> is_string path" "is_function cb" "\<not> is_function opts"
  shows "provide path opts cb st =
           (fun_throws cb,
            st\<lparr>trace := trace st @ [Invoke (fun_id cb) (TypeError ''path must be a string'') Undefined]\<rparr>) \<and>
         provide path cb Undefined st =
           (fun_throws cb,
            st\<lparr>trace := trace st @ [Invoke (fun_id cb) (TypeError ''path must be a string'') Undefined]\<rparr>) \<and>
         provideSync path opts outcome st = (Inl (TypeError ''path must be a string''), st) \<and>
         (if truthy opts
          then merger_provide path opts cb m =
                 (None, m\<lparr>pending := pending m @ [Direct path opts cb],
                           trace := trace m @ [ProviderCall path opts]\<rparr>)
          else merger_provide path opts cb m =
                 (fun_throws cb,
                  m\<lparr>trace := trace m @ [Invoke (fun_id cb) (TypeError ''path must be a string'') Undefined]\<rparr>))"
  using assms
  by (cases path)
     (simp_all add: provide_def provideSync_def merger_provide_def shift_args_def
        invoke_function call_provider_def)

theorem path_type_check_order_witness:
  "provide (Num 5) (Obj 3) (Fun 2 None) (CacheBackend_new 10) =
     (None, (CacheBackend_new 10)\<lparr>trace := [Invoke 2 (TypeError ''path must be a string'') Undefined]\<rparr>) \<and>
   provideSync (Num 5) (Obj 3) (Inr (Obj 4)) (CacheBackend_new 10) =
     (Inl (TypeError ''path must be a string''), CacheBackend_new 10) \<and>
   merger_provide (Num 5) (Obj 3) (Fun 2 None) OperationMergerBackend_new =
     (None, OperationMergerBackend_new\<lparr>pending := [Direct (Num 5) (Obj 3) (Fun 2 None)],
                                       trace := [ProviderCall (Num 5) (Obj 3)]\<rparr>)"
proof -
  have h1: "\<not> is_string (Num 5)" by simp
  have h2: "is_function (Fun 2 None)" by simp
  have h3: "\<not> is_function (Obj 3)" by simp
  from path_type_check_order[OF h1 h2 h3, of "CacheBackend_new 10" "Inr (Obj 4)" OperationMergerBackend_new]
  show ?thesis
    by (simp add: CacheBackend_new_def OperationMergerBackend_new_def)
qed

end
